theory Spec2Isabelle
  imports Main
begin

section \<open>Column Data Collection: data model\<close>

text \<open>
  The development embeds \<^verbatim>\<open>column_data_collection.cpp\<close>. Row counts and indices
  (\<^verbatim>\<open>idx_t\<close>, an unsigned 64-bit integer in the source) are natural numbers: every
  counted row occupies memory, so no sum of counts reaches \<open>2 ^ 64\<close>. The one
  subtraction whose operands are not ordered by a preceding test is written with its
  wrap-around (\<open>idx_sub\<close>).
\<close>

type_synonym idx_t = nat

definition idx_sub :: "idx_t \<Rightarrow> idx_t \<Rightarrow> idx_t" where
  "idx_sub a b = (if b \<le> a then a - b else a + 2 ^ 64 - b)"

datatype error = InternalException string | UndefinedBehavior

text \<open>
  Modelled from the spec: the \<^verbatim>\<open>D_ASSERT\<close> macro, whose definition is not part of the
  sources at hand. The spec reports a violated assertion as an internal-error condition
  that is fatal to the current operation, so a failed assertion raises.
\<close>

definition D_ASSERT :: "bool \<Rightarrow> error option" where
  "D_ASSERT cond = (if cond then None else Some (InternalException ''Assertion triggered''))"

subsection \<open>Types\<close>

datatype PhysicalType =
  BOOL | UINT8 | INT8 | UINT16 | INT16 | UINT32 | INT32 | UINT64 | INT64 | FLOAT | DOUBLE
  | INTERVAL | LIST | STRUCT | MAP | VARCHAR | INT128 | UNKNOWN | BIT | INVALID

text \<open>
  A logical type is its physical type together with the child types of a struct or the
  element type of a list. \<open>LogicalPlain\<close> is a type without extra type information.
\<close>

datatype LogicalType =
  LogicalPlain PhysicalType
  | LogicalStruct "(string \<times> LogicalType) list"
  | LogicalList LogicalType

fun InternalType :: "LogicalType \<Rightarrow> PhysicalType" where
  "InternalType (LogicalPlain p) = p"
| "InternalType (LogicalStruct _) = STRUCT"
| "InternalType (LogicalList _) = LIST"

text \<open>
  Modelled from the spec: the accessors \<^verbatim>\<open>StructType::GetChildTypes\<close> and
  \<^verbatim>\<open>ListType::GetChildType\<close> of the type system, an external collaborator. Asking a
  type without type information for its children violates an assertion.
\<close>

fun StructType_GetChildTypes :: "LogicalType \<Rightarrow> error + (string \<times> LogicalType) list" where
  "StructType_GetChildTypes (LogicalStruct cs) = Inr cs"
| "StructType_GetChildTypes _ = Inl (InternalException ''Assertion triggered'')"

fun ListType_GetChildType :: "LogicalType \<Rightarrow> error + LogicalType" where
  "ListType_GetChildType (LogicalList t) = Inr t"
| "ListType_GetChildType _ = Inl (InternalException ''Assertion triggered'')"

subsection \<open>Copy functions\<close>

text \<open>
  A \<^verbatim>\<open>column_data_copy_function_t\<close> is a function pointer; the model names the function it
  points to. \<open>ColumnDataCopy T\<close> is the instance \<^verbatim>\<open>ColumnDataCopy<T>\<close>.
\<close>

datatype value_type =
  T_bool | T_int8_t | T_int16_t | T_int32_t | T_int64_t | T_hugeint_t | T_uint8_t
  | T_uint16_t | T_uint32_t | T_uint64_t | T_float | T_double | T_interval_t | T_string_t
  | T_list_entry_t

datatype column_data_copy_function_t = ColumnDataCopy value_type | ColumnDataCopyStruct

datatype ColumnDataCopyFunction =
  ColumnDataCopyFunction (function_ptr: column_data_copy_function_t)
                         (child_functions: "ColumnDataCopyFunction list")

fun GetCopyFunction :: "LogicalType \<Rightarrow> error + ColumnDataCopyFunction"
  and GetCopyFunction_children ::
    "(string \<times> LogicalType) list \<Rightarrow> error + ColumnDataCopyFunction list" where
  "GetCopyFunction (LogicalPlain p) =
     (case p of
        BOOL \<Rightarrow> Inr (ColumnDataCopyFunction (ColumnDataCopy T_bool) [])
      | INT8 \<Rightarrow> Inr (ColumnDataCopyFunction (ColumnDataCopy T_int8_t) [])
      | INT16 \<Rightarrow> Inr (ColumnDataCopyFunction (ColumnDataCopy T_int16_t) [])
      | INT32 \<Rightarrow> Inr (ColumnDataCopyFunction (ColumnDataCopy T_int32_t) [])
      | INT64 \<Rightarrow> Inr (ColumnDataCopyFunction (ColumnDataCopy T_int64_t) [])
      | INT128 \<Rightarrow> Inr (ColumnDataCopyFunction (ColumnDataCopy T_hugeint_t) [])
      | UINT8 \<Rightarrow> Inr (ColumnDataCopyFunction (ColumnDataCopy T_uint8_t) [])
      | UINT16 \<Rightarrow> Inr (ColumnDataCopyFunction (ColumnDataCopy T_uint16_t) [])
      | UINT32 \<Rightarrow> Inr (ColumnDataCopyFunction (ColumnDataCopy T_uint32_t) [])
      | UINT64 \<Rightarrow> Inr (ColumnDataCopyFunction (ColumnDataCopy T_uint64_t) [])
      | FLOAT \<Rightarrow> Inr (ColumnDataCopyFunction (ColumnDataCopy T_float) [])
      | DOUBLE \<Rightarrow> Inr (ColumnDataCopyFunction (ColumnDataCopy T_double) [])
      | INTERVAL \<Rightarrow> Inr (ColumnDataCopyFunction (ColumnDataCopy T_interval_t) [])
      | VARCHAR \<Rightarrow> Inr (ColumnDataCopyFunction (ColumnDataCopy T_string_t) [])
      | STRUCT \<Rightarrow> Inl (InternalException ''Assertion triggered'')
      | LIST \<Rightarrow> Inl (InternalException ''Assertion triggered'')
      | _ \<Rightarrow> Inl (InternalException
                 ''Unsupported type for ColumnDataCollection::GetCopyFunction''))"
| "GetCopyFunction (LogicalStruct child_types) =
     (case GetCopyFunction_children child_types of
        Inl e \<Rightarrow> Inl e
      | Inr fs \<Rightarrow> Inr (ColumnDataCopyFunction ColumnDataCopyStruct fs))"
| "GetCopyFunction (LogicalList child_type) =
     (case GetCopyFunction child_type of
        Inl e \<Rightarrow> Inl e
      | Inr child_function \<Rightarrow>
          Inr (ColumnDataCopyFunction (ColumnDataCopy T_list_entry_t) [child_function]))"
| "GetCopyFunction_children [] = Inr []"
| "GetCopyFunction_children (kv # kvs) =
     (case GetCopyFunction (snd kv) of
        Inl e \<Rightarrow> Inl e
      | Inr f \<Rightarrow>
          (case GetCopyFunction_children kvs of
             Inl e \<Rightarrow> Inl e
           | Inr fs \<Rightarrow> Inr (f # fs)))"


subsection \<open>Values held in vectors\<close>

text \<open>
  A non-inlined \<^verbatim>\<open>string_t\<close> carries a length and a raw pointer. Pointers are tagged by
  the memory they point into: the string heap of a segment, or memory outside the
  collection (the buffers of an input vector). A memory maps a pointer to the bytes
  found there.
\<close>

datatype data_ptr = external_ptr nat | heap_ptr nat

type_synonym memory = "data_ptr \<Rightarrow> string"

datatype string_t = string_inlined string | string_pointer idx_t data_ptr

fun IsInlined :: "string_t \<Rightarrow> bool" where
  "IsInlined (string_inlined _) = True"
| "IsInlined (string_pointer _ _) = False"

fun GetString :: "memory \<Rightarrow> string_t \<Rightarrow> string" where
  "GetString mem (string_inlined s) = s"
| "GetString mem (string_pointer n p) = take n (mem p)"

datatype list_entry_t = list_entry_t (offset_of: idx_t) (length_of: idx_t)

text \<open>
  The content of one slot of a data region. A fixed-width value is its bit pattern, read
  as an integer; \<open>garbage\<close> stands for uninitialised bytes and for bytes read at a type
  they were not written at.
\<close>

datatype data_value =
  fixed_value int | string_value string_t | list_value list_entry_t | garbage

text \<open>
  Modelled from the spec: \<^verbatim>\<open>ValidityMask\<close>, part of the vector value container. A mask
  without a bitmap means that all rows are valid.
\<close>

type_synonym ValidityMask = "(idx_t \<Rightarrow> bool) option"

definition AllValid :: "ValidityMask \<Rightarrow> bool" where
  "AllValid m = (m = None)"

definition RowIsValid :: "ValidityMask \<Rightarrow> idx_t \<Rightarrow> bool" where
  "RowIsValid m row = (case m of None \<Rightarrow> True | Some bits \<Rightarrow> bits row)"

record UnifiedVectorFormat =
  sel :: "idx_t \<Rightarrow> idx_t"
  validity :: ValidityMask
  data :: "idx_t \<Rightarrow> data_value"

text \<open>
  Modelled from the spec: the \<^verbatim>\<open>Vector\<close> value container, an external collaborator. A
  vector is represented by the unified view that \<^verbatim>\<open>ToUnifiedFormat\<close> produces for it
  (selection vector, validity mask, data), the memory its string pointers refer to, and
  its nested vectors: the child vector and list size of a list, the entries of a struct.
\<close>

datatype Vector =
  Vector (GetType: LogicalType) (unified: UnifiedVectorFormat) (string_memory: memory)
         (GetListSize: idx_t) (GetEntries: "Vector list")

definition ToUnifiedFormat :: "Vector \<Rightarrow> idx_t \<Rightarrow> UnifiedVectorFormat" where
  "ToUnifiedFormat v n = unified v"

text \<open>
  Modelled from the spec: \<^verbatim>\<open>Flatten\<close> normalises a vector so that its selection vector
  is the identity; the entries of a struct are re-indexed through the old selection.
\<close>

fun Slice :: "(idx_t \<Rightarrow> idx_t) \<Rightarrow> Vector \<Rightarrow> Vector" where
  "Slice s (Vector t u mem n cs) = Vector t (u\<lparr>sel := (\<lambda>i. sel u (s i))\<rparr>) mem n cs"

fun Flatten :: "Vector \<Rightarrow> idx_t \<Rightarrow> Vector" where
  "Flatten (Vector t u mem n cs) size_p =
     Vector t
       \<lparr>sel = (\<lambda>i. i),
        validity = (case validity u of None \<Rightarrow> None | Some bits \<Rightarrow> Some (\<lambda>i. bits (sel u i))),
        data = (\<lambda>i. data u (sel u i))\<rparr>
       mem n
       (if InternalType t = STRUCT then map (Slice (sel u)) cs else cs)"

datatype DataChunk = DataChunk (data_of: "Vector list") (size_of: idx_t)

definition GetTypes :: "DataChunk \<Rightarrow> LogicalType list" where
  "GetTypes chunk = map GetType (data_of chunk)"

text \<open>
  Modelled from the spec: \<^verbatim>\<open>Value\<close> and \<^verbatim>\<open>Vector::GetValue\<close>. The value of a row is
  NULL when the row is invalid; otherwise it is read at the physical type of the vector,
  a list from the child vector and a struct from its entries.
\<close>

datatype Value =
  NullValue | FixedValue int | VarcharValue string | ListValue "Value list"
  | StructValue "Value list" | GarbageValue

fun GetValue :: "Vector \<Rightarrow> idx_t \<Rightarrow> Value" where
  "GetValue (Vector t u mem n cs) index =
     (let idx = sel u index in
      if \<not> RowIsValid (validity u) idx then NullValue
      else if InternalType t = STRUCT then StructValue (map (\<lambda>c. GetValue c idx) cs)
      else if InternalType t = LIST then
        (case (data u idx, cs) of
           (list_value e, c # _) \<Rightarrow>
             ListValue (map (\<lambda>k. GetValue c (offset_of e + k)) [0..<length_of e])
         | _ \<Rightarrow> GarbageValue)
      else if InternalType t = VARCHAR then
        (case data u idx of
           string_value s \<Rightarrow> VarcharValue (GetString mem s)
         | _ \<Rightarrow> GarbageValue)
      else
        (case data u idx of
           fixed_value x \<Rightarrow> FixedValue x
         | _ \<Rightarrow> GarbageValue))"

subsection \<open>Segments\<close>

text \<open>
  A vector descriptor points to a block region holding \<^verbatim>\<open>STANDARD_VECTOR_SIZE\<close> data
  slots followed by a validity bitmap. The byte layout is not modelled: the region that
  \<^verbatim>\<open>(block_id, offset)\<close> addresses is kept with the descriptor, as a function from slot
  index to content and a function from row to validity bit. Indices into the descriptor
  table (\<^verbatim>\<open>VectorDataIndex\<close>, \<^verbatim>\<open>VectorChildIndex\<close>) are optional numbers, \<open>None\<close>
  being the invalid index.
\<close>

record block_region =
  region_data :: "idx_t \<Rightarrow> data_value"
  region_validity :: "idx_t \<Rightarrow> bool"

type_synonym VectorDataIndex = "nat option"
type_synonym VectorChildIndex = "nat option"

record VectorMetaData =
  block :: block_region
  vcount :: idx_t
  child_index :: VectorChildIndex
  next_data :: VectorDataIndex

record ChunkMetaData =
  chunk_vector_data :: "VectorDataIndex list"
  chunk_count :: idx_t

datatype ColumnDataAllocator =
  ColumnDataAllocator_of_Allocator nat | ColumnDataAllocator_of_BufferManager nat

type_synonym allocator_ptr = "ColumnDataAllocator option"

record ColumnDataCollectionSegment =
  segment_allocator :: allocator_ptr
  segment_types :: "LogicalType list"
  segment_count :: idx_t
  chunk_data :: "ChunkMetaData list"
  vector_data :: "VectorMetaData list"
  child_indices :: "VectorDataIndex list"
  heap :: "string list"

subsection \<open>The collection\<close>

text \<open>
  The collection owns its segments through \<^verbatim>\<open>unique_ptr\<close>s; a pointer that has been
  moved from is null (\<open>None\<close>).
\<close>

record ColumnDataCollection =
  allocator :: allocator_ptr
  types :: "LogicalType list"
  count :: idx_t
  segments :: "ColumnDataCollectionSegment option list"
  copy_functions :: "ColumnDataCopyFunction list"
  finished_append :: bool

definition Count :: "ColumnDataCollection \<Rightarrow> idx_t" where
  "Count this = count this"

definition ColumnCount :: "ColumnDataCollection \<Rightarrow> idx_t" where
  "ColumnCount this = length (types this)"

text \<open>The members of a collection before a constructor body has run.\<close>

definition uninitialized_collection :: ColumnDataCollection where
  "uninitialized_collection =
     \<lparr>allocator = None, types = [], count = 0, segments = [], copy_functions = [],
      finished_append = False\<rparr>"

fun push_back_copy_functions ::
  "LogicalType list \<Rightarrow> ColumnDataCopyFunction list \<Rightarrow> error + ColumnDataCopyFunction list" where
  "push_back_copy_functions [] fs = Inr fs"
| "push_back_copy_functions (t # ts) fs =
     (case GetCopyFunction t of
        Inl e \<Rightarrow> Inl e
      | Inr f \<Rightarrow> push_back_copy_functions ts (fs @ [f]))"

definition Initialize ::
  "ColumnDataCollection \<Rightarrow> LogicalType list \<Rightarrow> error + ColumnDataCollection" where
  "Initialize this types_p =
     (let this1 = this\<lparr>types := types_p, count := 0, finished_append := False\<rparr> in
      case D_ASSERT (types this1 \<noteq> []) of
        Some e \<Rightarrow> Inl e
      | None \<Rightarrow>
          (case push_back_copy_functions (types this1) (copy_functions this1) of
             Inl e \<Rightarrow> Inl e
           | Inr fs \<Rightarrow> Inr (this1\<lparr>copy_functions := fs\<rparr>)))"

text \<open>The constructor that is explicitly initialized without types.\<close>

definition ColumnDataCollection_Allocator :: "nat \<Rightarrow> ColumnDataCollection" where
  "ColumnDataCollection_Allocator allocator_p =
     uninitialized_collection
       \<lparr>types := [], count := 0, finished_append := False,
        allocator := Some (ColumnDataAllocator_of_Allocator allocator_p)\<rparr>"

definition ColumnDataCollection_Allocator_types ::
  "nat \<Rightarrow> LogicalType list \<Rightarrow> error + ColumnDataCollection" where
  "ColumnDataCollection_Allocator_types allocator_p types_p =
     (case Initialize uninitialized_collection types_p of
        Inl e \<Rightarrow> Inl e
      | Inr this \<Rightarrow> Inr (this\<lparr>allocator := Some (ColumnDataAllocator_of_Allocator allocator_p)\<rparr>))"

definition ColumnDataCollection_BufferManager ::
  "nat \<Rightarrow> LogicalType list \<Rightarrow> error + ColumnDataCollection" where
  "ColumnDataCollection_BufferManager buffer_manager types_p =
     (case Initialize uninitialized_collection types_p of
        Inl e \<Rightarrow> Inl e
      | Inr this \<Rightarrow>
          Inr (this\<lparr>allocator := Some (ColumnDataAllocator_of_BufferManager buffer_manager)\<rparr>))"

definition ColumnDataCollection_shared ::
  "allocator_ptr \<Rightarrow> LogicalType list \<Rightarrow> error + ColumnDataCollection" where
  "ColumnDataCollection_shared allocator_p types_p =
     (case Initialize uninitialized_collection types_p of
        Inl e \<Rightarrow> Inl e
      | Inr this \<Rightarrow> Inr (this\<lparr>allocator := allocator_p\<rparr>))"

text \<open>
  The copy constructor delegates to the constructor from a shared allocator and types,
  then marks the source. The result is the new collection, or the exception that ended
  its construction, together with the source as the call leaves it.
\<close>

definition ColumnDataCollection_copy ::
  "ColumnDataCollection \<Rightarrow> (error + ColumnDataCollection) \<times> ColumnDataCollection" where
  "ColumnDataCollection_copy other =
     (case ColumnDataCollection_shared (allocator other) (types other) of
        Inl e \<Rightarrow> (Inl e, other)
      | Inr this \<Rightarrow>
          (let other1 = other\<lparr>finished_append := True\<rparr> in
           case D_ASSERT (types this \<noteq> []) of
             Some e \<Rightarrow> (Inl e, other1)
           | None \<Rightarrow> (Inr this, other1)))"

definition CreateSegment :: "ColumnDataCollection \<Rightarrow> ColumnDataCollection" where
  "CreateSegment this =
     this\<lparr>segments := segments this @
       [Some \<lparr>segment_allocator = allocator this, segment_types = types this,
              segment_count = 0, chunk_data = [], vector_data = [], child_indices = [],
              heap = []\<rparr>]\<rparr>"


section \<open>Segment operations\<close>

text \<open>
  An operation that changes a segment or a collection returns an outcome: the exception
  it raised, if any, and the state as the operation left it. Operations with a loop that
  need not terminate return an optional outcome, \<open>None\<close> when they do not return.
\<close>

type_synonym 's outcome = "error option \<times> 's"

definition GetVectorData ::
  "ColumnDataCollectionSegment \<Rightarrow> VectorDataIndex \<Rightarrow> VectorMetaData option" where
  "GetVectorData segment index =
     (case index of
        None \<Rightarrow> None
      | Some i \<Rightarrow> if i < length (vector_data segment) then Some (vector_data segment ! i) else None)"

text \<open>
  Modelled from the spec: the segment's allocation of vector descriptors
  (\<^verbatim>\<open>column_data_collection_segment.cpp\<close> is not part of the sources at hand).
  \<open>AllocateVector\<close> allocates one descriptor with a fresh, uninitialised block region and,
  if a predecessor is given, links it as the predecessor's \<open>next_data\<close>. Uninitialised
  memory is modelled at its worst: garbage data and no row valid.
\<close>

definition uninitialized_block :: block_region where
  "uninitialized_block = \<lparr>region_data = (\<lambda>_. garbage), region_validity = (\<lambda>_. False)\<rparr>"

definition AllocateVectorInternal ::
  "LogicalType \<Rightarrow> ColumnDataCollectionSegment \<Rightarrow> ColumnDataCollectionSegment \<times> nat" where
  "AllocateVectorInternal type segment =
     (let meta_data = \<lparr>block = uninitialized_block, vcount = 0, child_index = None,
                       next_data = None\<rparr>;
          index = length (vector_data segment)
      in (segment\<lparr>vector_data := vector_data segment @ [meta_data]\<rparr>, index))"

definition AllocateVector ::
  "LogicalType \<Rightarrow> VectorDataIndex \<Rightarrow> ColumnDataCollectionSegment \<Rightarrow>
     ColumnDataCollectionSegment outcome \<times> nat" where
  "AllocateVector type prev_index segment =
     (let (segment1, index) = AllocateVectorInternal type segment in
      case prev_index of
        None \<Rightarrow> ((None, segment1), index)
      | Some p \<Rightarrow>
          if p < length (vector_data segment1) then
            ((None, segment1\<lparr>vector_data := (vector_data segment1)
                [p := (vector_data segment1 ! p)\<lparr>next_data := Some index\<rparr>]\<rparr>), index)
          else ((Some UndefinedBehavior, segment1), index))"

text \<open>
  Modelled from the spec: the table of child indices used by list vectors (one child) and
  struct vectors (many children). \<open>GetChildIndex\<close> asserts that the index is valid and in
  range.
\<close>

definition AddChildIndex ::
  "VectorDataIndex \<Rightarrow> ColumnDataCollectionSegment \<Rightarrow> ColumnDataCollectionSegment \<times> nat" where
  "AddChildIndex index segment =
     (segment\<lparr>child_indices := child_indices segment @ [index]\<rparr>,
      length (child_indices segment))"

definition GetChildIndex ::
  "ColumnDataCollectionSegment \<Rightarrow> VectorChildIndex \<Rightarrow> idx_t \<Rightarrow> error + VectorDataIndex" where
  "GetChildIndex segment index child_entry =
     (case index of
        None \<Rightarrow> Inl (InternalException ''Assertion triggered'')
      | Some i \<Rightarrow>
          if i + child_entry < length (child_indices segment)
          then Inr (child_indices segment ! (i + child_entry))
          else Inl (InternalException ''Assertion triggered''))"

definition set_child_index ::
  "nat \<Rightarrow> VectorChildIndex \<Rightarrow> ColumnDataCollectionSegment \<Rightarrow> ColumnDataCollectionSegment" where
  "set_child_index index ci segment =
     segment\<lparr>vector_data := (vector_data segment)
       [index := (vector_data segment ! index)\<lparr>child_index := ci\<rparr>]\<rparr>"

text \<open>
  Modelled from the spec: \<open>AllocateNewChunk\<close> allocates one root descriptor per schema
  column, recursing into list and struct children, and appends an empty chunk. The
  children of a struct occupy consecutive entries of the child-index table, reserved
  before the children are allocated.
\<close>

fun AllocateRootVector ::
    "LogicalType \<Rightarrow> ColumnDataCollectionSegment \<Rightarrow> ColumnDataCollectionSegment \<times> nat"
  and AllocateRootVector_children ::
    "(string \<times> LogicalType) list \<Rightarrow> nat \<Rightarrow> ColumnDataCollectionSegment \<Rightarrow>
       ColumnDataCollectionSegment" where
  "AllocateRootVector (LogicalPlain p) segment = AllocateVectorInternal (LogicalPlain p) segment"
| "AllocateRootVector (LogicalList child_type) segment =
     (let (segment1, index) = AllocateVectorInternal (LogicalList child_type) segment;
          (segment2, child) = AllocateRootVector child_type segment1;
          (segment3, ci) = AddChildIndex (Some child) segment2
      in (set_child_index index (Some ci) segment3, index))"
| "AllocateRootVector (LogicalStruct child_types) segment =
     (let (segment1, index) = AllocateVectorInternal (LogicalStruct child_types) segment;
          base_child_index = length (child_indices segment1);
          segment2 = segment1\<lparr>child_indices :=
                       child_indices segment1 @ replicate (length child_types) None\<rparr>;
          segment3 = AllocateRootVector_children child_types base_child_index segment2
      in (set_child_index index (Some base_child_index) segment3, index))"
| "AllocateRootVector_children [] slot segment = segment"
| "AllocateRootVector_children (kv # kvs) slot segment =
     (let (segment1, child) = AllocateRootVector (snd kv) segment;
          segment2 = segment1\<lparr>child_indices := (child_indices segment1)[slot := Some child]\<rparr>
      in AllocateRootVector_children kvs (Suc slot) segment2)"

fun AllocateNewChunk_vectors ::
  "LogicalType list \<Rightarrow> ChunkMetaData \<Rightarrow> ColumnDataCollectionSegment \<Rightarrow>
     ColumnDataCollectionSegment \<times> ChunkMetaData" where
  "AllocateNewChunk_vectors [] meta_data segment = (segment, meta_data)"
| "AllocateNewChunk_vectors (t # ts) meta_data segment =
     (let (segment1, vector_idx) = AllocateRootVector t segment in
      AllocateNewChunk_vectors ts
        (meta_data\<lparr>chunk_vector_data := chunk_vector_data meta_data @ [Some vector_idx]\<rparr>)
        segment1)"

definition AllocateNewChunk :: "ColumnDataCollectionSegment \<Rightarrow> ColumnDataCollectionSegment" where
  "AllocateNewChunk segment =
     (let (segment1, meta_data) =
            AllocateNewChunk_vectors (segment_types segment)
              \<lparr>chunk_vector_data = [], chunk_count = 0\<rparr> segment
      in segment1\<lparr>chunk_data := chunk_data segment1 @ [meta_data]\<rparr>)"

definition segment_ChunkCount :: "ColumnDataCollectionSegment \<Rightarrow> idx_t" where
  "segment_ChunkCount segment = length (chunk_data segment)"

text \<open>
  Modelled from the spec: the segment's \<open>Verify\<close>, which asserts that the counts of the
  chunks add up to the count of the segment.
\<close>

definition segment_Verify :: "ColumnDataCollectionSegment \<Rightarrow> error option" where
  "segment_Verify segment =
     D_ASSERT (sum_list (map chunk_count (chunk_data segment)) = segment_count segment)"


section \<open>Append\<close>

subsection \<open>Value copy operations\<close>

text \<open>
  Modelled from the spec: the string heap's \<open>AddBlob\<close> copies the bytes of a string into
  the segment heap and returns a \<open>string_t\<close> that is equal in value and points into that
  heap. \<open>heap_memory\<close> is the memory through which pointers into a heap are read.
\<close>

fun GetSize :: "string_t \<Rightarrow> idx_t" where
  "GetSize (string_inlined s) = length s"
| "GetSize (string_pointer n _) = n"

definition AddBlob :: "string list \<Rightarrow> memory \<Rightarrow> string_t \<Rightarrow> string list \<times> string_t" where
  "AddBlob heap_p mem input =
     (heap_p @ [GetString mem input], string_pointer (GetSize input) (heap_ptr (length heap_p)))"

definition heap_memory :: "string list \<Rightarrow> memory" where
  "heap_memory heap_p =
     (\<lambda>p. case p of
        heap_ptr i \<Rightarrow> if i < length heap_p then heap_p ! i else []
      | external_ptr _ \<Rightarrow> [])"

record ColumnDataMetaData =
  copy_function :: ColumnDataCopyFunction
  vector_data_index :: VectorDataIndex
  child_list_size :: idx_t

definition INVALID_INDEX :: idx_t where
  "INVALID_INDEX = 2 ^ 64 - 1"

definition GetVectorMetaData ::
  "ColumnDataMetaData \<Rightarrow> ColumnDataCollectionSegment \<Rightarrow> VectorMetaData option" where
  "GetVectorMetaData meta_data segment = GetVectorData segment (vector_data_index meta_data)"

text \<open>
  The template parameter \<^verbatim>\<open>OP\<close> of the copy engine. \<open>Operation\<close> reads its input at the
  value type of the operation; the string operation may grow the heap of the segment, and
  reads the bytes of its input from the memory of the source vector.
\<close>

datatype value_copy = StandardValueCopy | StringValueCopy | ListValueCopy | StructValueCopy

fun Operation ::
  "value_copy \<Rightarrow> ColumnDataMetaData \<Rightarrow> memory \<Rightarrow> string list \<Rightarrow> data_value \<Rightarrow>
     string list \<times> data_value" where
  "Operation StandardValueCopy meta_data mem heap_p input =
     (case input of fixed_value x \<Rightarrow> (heap_p, fixed_value x) | _ \<Rightarrow> (heap_p, garbage))"
| "Operation StringValueCopy meta_data mem heap_p input =
     (case input of
        string_value s \<Rightarrow>
          if IsInlined s then (heap_p, string_value s)
          else (let (heap1, s1) = AddBlob heap_p mem s in (heap1, string_value s1))
      | _ \<Rightarrow> (heap_p, garbage))"
| "Operation ListValueCopy meta_data mem heap_p input =
     (case input of
        list_value e \<Rightarrow>
          (heap_p, list_value (list_entry_t (offset_of e + child_list_size meta_data) (length_of e)))
      | _ \<Rightarrow> (heap_p, garbage))"
| "Operation StructValueCopy meta_data mem heap_p input = (heap_p, input)"

text \<open>
  \<open>Assign\<close> writes one slot of the target region; the struct operation has no data and
  writes nothing.
\<close>

definition Assign ::
  "value_copy \<Rightarrow> ColumnDataMetaData \<Rightarrow> memory \<Rightarrow> (idx_t \<Rightarrow> data_value) \<Rightarrow> idx_t \<Rightarrow> idx_t \<Rightarrow>
     string list \<times> block_region \<Rightarrow> string list \<times> block_region" where
  "Assign OP meta_data mem source_p target_idx source_idx st =
     (if OP = StructValueCopy then st
      else (let (heap1, v) = Operation OP meta_data mem (fst st) (source_p source_idx)
            in (heap1, (snd st)\<lparr>region_data := (region_data (snd st))(target_idx := v)\<rparr>)))"

definition SetAllValid :: "block_region \<Rightarrow> idx_t \<Rightarrow> block_region" where
  "SetAllValid region n =
     region\<lparr>region_validity := (\<lambda>i. if i < n then True else region_validity region i)\<rparr>"

definition SetInvalid :: "block_region \<Rightarrow> idx_t \<Rightarrow> block_region" where
  "SetInvalid region i = region\<lparr>region_validity := (region_validity region)(i := False)\<rparr>"

text \<open>
  \<open>ColumnDataCopyValidity\<close> copies the validity of \<open>copy_count\<close> rows into a target
  bitmap, initialising the bitmap when the target offset is 0.
\<close>

definition ColumnDataCopyValidity ::
  "idx_t \<Rightarrow> UnifiedVectorFormat \<Rightarrow> block_region \<Rightarrow> idx_t \<Rightarrow> idx_t \<Rightarrow> idx_t \<Rightarrow> block_region" where
  "ColumnDataCopyValidity STANDARD_VECTOR_SIZE source_data target source_offset target_offset
       copy_count =
     (let validity0 = (if target_offset = 0 then SetAllValid target STANDARD_VECTOR_SIZE
                       else target)
      in if \<not> AllValid (validity source_data) then
           fold (\<lambda>i v.
                   let idx = sel source_data (source_offset + i) in
                   if \<not> RowIsValid (validity source_data) idx
                   then SetInvalid v (target_offset + i) else v)
                [0..<copy_count] validity0
         else validity0)"

subsection \<open>The templated copy engine\<close>

text \<open>
  The inner loop of \<open>TemplatedColumnDataCopy\<close> over the rows that go into the current
  descriptor. It works on the heap of the segment and on the block region of the
  descriptor, which is written back when the descriptor's count is updated.
\<close>

definition copy_rows ::
  "value_copy \<Rightarrow> ColumnDataMetaData \<Rightarrow> UnifiedVectorFormat \<Rightarrow> Vector \<Rightarrow> idx_t \<Rightarrow> idx_t \<Rightarrow> idx_t \<Rightarrow>
     string list \<times> block_region \<Rightarrow> string list \<times> block_region" where
  "copy_rows OP meta_data source_data source offset current_count append_count st =
     fold (\<lambda>i st1.
             let source_idx = sel source_data (offset + i) in
             if RowIsValid (validity source_data) source_idx
             then Assign OP meta_data (string_memory source) (data source_data)
                    (current_count + i) source_idx st1
             else (fst st1, SetInvalid (snd st1) (current_count + i)))
          [0..<append_count] st"

text \<open>
  One iteration of the while loop of \<open>TemplatedColumnDataCopy\<close>, entered with rows
  remaining. It yields the exception it raised together with the segment, or the loop
  variables and the segment for the next test of the loop condition.
\<close>

definition TemplatedColumnDataCopy_body ::
  "idx_t \<Rightarrow> value_copy \<Rightarrow> ColumnDataMetaData \<Rightarrow> UnifiedVectorFormat \<Rightarrow> Vector \<Rightarrow>
     VectorDataIndex \<Rightarrow> idx_t \<Rightarrow> idx_t \<Rightarrow> ColumnDataCollectionSegment \<Rightarrow>
     error \<times> ColumnDataCollectionSegment +
     VectorDataIndex \<times> idx_t \<times> idx_t \<times> ColumnDataCollectionSegment" where
  "TemplatedColumnDataCopy_body STANDARD_VECTOR_SIZE OP meta_data source_data source
       current_index offset remaining segment =
     (case GetVectorData segment current_index of
        None \<Rightarrow> Inl (UndefinedBehavior, segment)
      | Some current_segment \<Rightarrow>
          (let append_count =
                 min (idx_sub STANDARD_VECTOR_SIZE (vcount current_segment)) remaining;
               result_validity =
                 (if vcount current_segment = 0
                  then SetAllValid (block current_segment) STANDARD_VECTOR_SIZE
                  else block current_segment);
               (heap1, region1) =
                 copy_rows OP meta_data source_data source offset (vcount current_segment)
                   append_count (heap segment, result_validity);
               current_segment1 =
                 current_segment\<lparr>block := region1,
                                  vcount := vcount current_segment + append_count\<rparr>;
               segment1 =
                 segment\<lparr>heap := heap1,
                         vector_data := (vector_data segment)
                           [the current_index := current_segment1]\<rparr>;
               offset1 = offset + append_count;
               remaining1 = remaining - append_count
           in if remaining1 > 0 then
                (case (if next_data current_segment1 = None
                       then fst (AllocateVector (GetType source) current_index segment1)
                       else (None, segment1)) of
                   (Some e, segment2) \<Rightarrow> Inl (e, segment2)
                 | (None, segment2) \<Rightarrow>
                     (case GetVectorData segment2 current_index of
                        None \<Rightarrow> Inl (UndefinedBehavior, segment2)
                      | Some v \<Rightarrow>
                          (case D_ASSERT (next_data v \<noteq> None) of
                             Some e \<Rightarrow> Inl (e, segment2)
                           | None \<Rightarrow> Inr (next_data v, offset1, remaining1, segment2))))
              else Inr (current_index, offset1, remaining1, segment1)))"

partial_function (option) TemplatedColumnDataCopy_loop ::
  "idx_t \<Rightarrow> value_copy \<Rightarrow> ColumnDataMetaData \<Rightarrow> UnifiedVectorFormat \<Rightarrow> Vector \<Rightarrow>
     VectorDataIndex \<Rightarrow> idx_t \<Rightarrow> idx_t \<Rightarrow> ColumnDataCollectionSegment \<Rightarrow>
     ColumnDataCollectionSegment outcome option" where
  "TemplatedColumnDataCopy_loop STANDARD_VECTOR_SIZE OP meta_data source_data source
       current_index offset remaining segment =
     (if remaining > 0 then
        (case TemplatedColumnDataCopy_body STANDARD_VECTOR_SIZE OP meta_data source_data source
                current_index offset remaining segment of
           Inl (e, segment1) \<Rightarrow> Some (Some e, segment1)
         | Inr (current_index1, offset1, remaining1, segment1) \<Rightarrow>
             TemplatedColumnDataCopy_loop STANDARD_VECTOR_SIZE OP meta_data source_data source
               current_index1 offset1 remaining1 segment1)
      else Some (None, segment))"

definition TemplatedColumnDataCopy ::
  "idx_t \<Rightarrow> value_copy \<Rightarrow> ColumnDataMetaData \<Rightarrow> UnifiedVectorFormat \<Rightarrow> Vector \<Rightarrow> idx_t \<Rightarrow> idx_t \<Rightarrow>
     ColumnDataCollectionSegment \<Rightarrow> ColumnDataCollectionSegment outcome option" where
  "TemplatedColumnDataCopy STANDARD_VECTOR_SIZE OP meta_data source_data source offset
       count_p segment =
     TemplatedColumnDataCopy_loop STANDARD_VECTOR_SIZE OP meta_data source_data source
       (vector_data_index meta_data) offset count_p segment"


subsection \<open>Copy functions per physical type\<close>

text \<open>
  The loop of the list copy that figures out the current list size by traversing the
  chain of child descriptors.
\<close>

partial_function (option) current_list_size_loop ::
  "ColumnDataCollectionSegment \<Rightarrow> VectorDataIndex \<Rightarrow> idx_t \<Rightarrow> (error + idx_t) option" where
  "current_list_size_loop segment current_child_index current_list_size =
     (if current_child_index \<noteq> None then
        (case GetVectorData segment current_child_index of
           None \<Rightarrow> Some (Inl UndefinedBehavior)
         | Some child_vdata \<Rightarrow>
             current_list_size_loop segment (next_data child_vdata)
               (current_list_size + vcount child_vdata))
      else Some (Inr current_list_size))"

definition nth_opt :: "'a list \<Rightarrow> nat \<Rightarrow> 'a option" where
  "nth_opt xs i = (if i < length xs then Some (xs ! i) else None)"

text \<open>
  The list copy before the child entries are appended: it takes the child vector of the
  source and allocates the child descriptor of the target if there is none yet.
\<close>

definition ColumnDataCopy_list_child ::
  "ColumnDataMetaData \<Rightarrow> Vector \<Rightarrow> ColumnDataCollectionSegment \<Rightarrow>
     error \<times> ColumnDataCollectionSegment + Vector \<times> ColumnDataCollectionSegment" where
  "ColumnDataCopy_list_child meta_data source segment =
     (case GetEntries source of
        [] \<Rightarrow> Inl (UndefinedBehavior, segment)
      | child_vector # _ \<Rightarrow>
          (let child_type = GetType child_vector
           in case GetVectorMetaData meta_data segment of
                None \<Rightarrow> Inl (UndefinedBehavior, segment)
              | Some v \<Rightarrow>
                  if child_index v = None then
                    (let (r, child) = AllocateVector child_type None segment;
                         (segment_a, ci) = AddChildIndex (Some child) (snd r)
                     in Inr (child_vector,
                             set_child_index (the (vector_data_index meta_data)) (Some ci)
                               segment_a))
                  else Inr (child_vector, segment)))"

text \<open>
  The list copy then looks up the index of the child descriptor and figures out the
  current list size by traversing the chain of child descriptors.
\<close>

definition ColumnDataCopy_list_size ::
  "ColumnDataMetaData \<Rightarrow> ColumnDataCollectionSegment \<Rightarrow> (error + VectorDataIndex \<times> idx_t) option"
  where
  "ColumnDataCopy_list_size meta_data segment =
     (case GetVectorMetaData meta_data segment of
        None \<Rightarrow> Some (Inl UndefinedBehavior)
      | Some v \<Rightarrow>
          (case GetChildIndex segment (child_index v) 0 of
             Inl e \<Rightarrow> Some (Inl e)
           | Inr child_idx \<Rightarrow>
               (case current_list_size_loop segment child_idx 0 of
                  None \<Rightarrow> None
                | Some (Inl e) \<Rightarrow> Some (Inl e)
                | Some (Inr current_list_size) \<Rightarrow> Some (Inr (child_idx, current_list_size)))))"

text \<open>
  The struct copy after the validity of the struct itself is copied: the child types of
  the source and the assertion on the child index of the target.
\<close>

definition ColumnDataCopyStruct_child_types ::
  "ColumnDataMetaData \<Rightarrow> Vector \<Rightarrow> ColumnDataCollectionSegment \<Rightarrow> error + idx_t" where
  "ColumnDataCopyStruct_child_types meta_data source segment =
     (case StructType_GetChildTypes (GetType source) of
        Inl e \<Rightarrow> Inl e
      | Inr child_types \<Rightarrow>
          (case GetVectorMetaData meta_data segment of
             None \<Rightarrow> Inl UndefinedBehavior
           | Some v \<Rightarrow>
               (case D_ASSERT (child_index v \<noteq> None) of
                  Some e \<Rightarrow> Inl e
                | None \<Rightarrow> Inr (length child_types))))"

text \<open>
  What one iteration of the loop over the struct children looks up: the index of the
  child descriptor and the child vector of the source.
\<close>

definition ColumnDataCopyStruct_child ::
  "VectorDataIndex \<Rightarrow> idx_t \<Rightarrow> Vector list \<Rightarrow> ColumnDataCollectionSegment \<Rightarrow>
     error + VectorDataIndex \<times> Vector" where
  "ColumnDataCopyStruct_child index child_idx child_vectors segment =
     (case GetVectorData segment index of
        None \<Rightarrow> Inl UndefinedBehavior
      | Some v \<Rightarrow>
          (case GetChildIndex segment (child_index v) child_idx of
             Inl e \<Rightarrow> Inl e
           | Inr child_index_p \<Rightarrow>
               (case nth_opt child_vectors child_idx of
                  None \<Rightarrow> Inl UndefinedBehavior
                | Some child_vector \<Rightarrow> Inr (child_index_p, child_vector))))"

text \<open>
  A call through the function pointer of a copy function. The first equation dispatches
  on the pointer: \<open>ColumnDataCopy<string_t>\<close>, \<open>ColumnDataCopy<list_entry_t>\<close>, the
  instances of \<open>ColumnDataCopy<T>\<close> for the fixed-width types, and \<open>ColumnDataCopyStruct\<close>,
  whose loop over the child vectors is the second function. The meta data of a call holds
  the copy function and the index of the target descriptor.
\<close>

fun call_copy_function ::
    "idx_t \<Rightarrow> ColumnDataCopyFunction \<Rightarrow> VectorDataIndex \<Rightarrow> UnifiedVectorFormat \<Rightarrow> Vector \<Rightarrow>
       idx_t \<Rightarrow> idx_t \<Rightarrow> ColumnDataCollectionSegment \<Rightarrow> ColumnDataCollectionSegment outcome option"
  and ColumnDataCopyStruct_children ::
    "idx_t \<Rightarrow> ColumnDataCopyFunction list \<Rightarrow> idx_t \<Rightarrow> idx_t \<Rightarrow> VectorDataIndex \<Rightarrow> Vector list \<Rightarrow>
       idx_t \<Rightarrow> idx_t \<Rightarrow> ColumnDataCollectionSegment \<Rightarrow> ColumnDataCollectionSegment outcome option"
  where
  "call_copy_function STANDARD_VECTOR_SIZE (ColumnDataCopyFunction fp child_fs) index
       source_data source offset copy_count segment =
     (let meta_data = \<lparr>copy_function = ColumnDataCopyFunction fp child_fs,
                       vector_data_index = index, child_list_size = INVALID_INDEX\<rparr>
      in case fp of
        ColumnDataCopy T_string_t \<Rightarrow>
          TemplatedColumnDataCopy STANDARD_VECTOR_SIZE StringValueCopy meta_data source_data
            source offset copy_count segment
      | ColumnDataCopy T_list_entry_t \<Rightarrow>
          (case ColumnDataCopy_list_child meta_data source segment of
             Inl (e, segment1) \<Rightarrow> Some (Some e, segment1)
           | Inr (child_vector, segment1) \<Rightarrow>
               (case child_fs of
                  [] \<Rightarrow> Some (Some UndefinedBehavior, segment1)
                | child_function # _ \<Rightarrow>
                    (case ColumnDataCopy_list_size meta_data segment1 of
                       None \<Rightarrow> None
                     | Some (Inl e) \<Rightarrow> Some (Some e, segment1)
                     | Some (Inr (child_idx, current_list_size)) \<Rightarrow>
                         (case call_copy_function STANDARD_VECTOR_SIZE child_function child_idx
                                 (ToUnifiedFormat child_vector (GetListSize source))
                                 child_vector 0 (GetListSize source) segment1 of
                            None \<Rightarrow> None
                          | Some (Some e, segment2) \<Rightarrow> Some (Some e, segment2)
                          | Some (None, segment2) \<Rightarrow>
                              TemplatedColumnDataCopy STANDARD_VECTOR_SIZE ListValueCopy
                                (meta_data\<lparr>child_list_size := current_list_size\<rparr>)
                                source_data source offset copy_count segment2))))
      | ColumnDataCopy _ \<Rightarrow>
          TemplatedColumnDataCopy STANDARD_VECTOR_SIZE StandardValueCopy meta_data source_data
            source offset copy_count segment
      | ColumnDataCopyStruct \<Rightarrow>
          (case TemplatedColumnDataCopy STANDARD_VECTOR_SIZE StructValueCopy meta_data
                  source_data source offset copy_count segment of
             None \<Rightarrow> None
           | Some (Some e, segment1) \<Rightarrow> Some (Some e, segment1)
           | Some (None, segment1) \<Rightarrow>
               (case ColumnDataCopyStruct_child_types meta_data source segment1 of
                  Inl e \<Rightarrow> Some (Some e, segment1)
                | Inr n \<Rightarrow>
                    ColumnDataCopyStruct_children STANDARD_VECTOR_SIZE child_fs 0 n index
                      (GetEntries source) offset copy_count segment1)))"
| "ColumnDataCopyStruct_children STANDARD_VECTOR_SIZE fs child_idx n index child_vectors
       offset copy_count segment =
     (if child_idx < n then
        (case fs of
           [] \<Rightarrow> Some (Some UndefinedBehavior, segment)
         | child_function # fs1 \<Rightarrow>
             (case ColumnDataCopyStruct_child index child_idx child_vectors segment of
                Inl e \<Rightarrow> Some (Some e, segment)
              | Inr (child_index_p, child_vector) \<Rightarrow>
                  (case call_copy_function STANDARD_VECTOR_SIZE child_function child_index_p
                          (ToUnifiedFormat child_vector copy_count) child_vector offset
                          copy_count segment of
                     None \<Rightarrow> None
                   | Some (Some e, segment1) \<Rightarrow> Some (Some e, segment1)
                   | Some (None, segment1) \<Rightarrow>
                       ColumnDataCopyStruct_children STANDARD_VECTOR_SIZE fs1 (Suc child_idx) n
                         index child_vectors offset copy_count segment1)))
      else Some (None, segment))"

declare call_copy_function.simps [simp del]
declare ColumnDataCopyStruct_children.simps [simp del]

subsection \<open>The append driver\<close>

text \<open>
  The append state caches the unified view of every input column. The pins that the
  state holds on blocks of the current chunk belong to the buffer manager and are not
  modelled on the append path.
\<close>

record ColumnDataAppendState =
  state_vector_data :: "UnifiedVectorFormat list"

definition default_UnifiedVectorFormat :: UnifiedVectorFormat where
  "default_UnifiedVectorFormat = \<lparr>sel = (\<lambda>i. i), validity = None, data = (\<lambda>_. garbage)\<rparr>"

definition resize :: "'a list \<Rightarrow> nat \<Rightarrow> 'a \<Rightarrow> 'a list" where
  "resize xs n d = take n xs @ replicate (n - length xs) d"

definition set_last :: "'a list \<Rightarrow> 'a \<Rightarrow> 'a list" where
  "set_last xs x = butlast xs @ [x]"

definition InitializeAppend ::
  "ColumnDataCollection \<Rightarrow> ColumnDataAppendState \<Rightarrow>
     (ColumnDataCollection \<times> ColumnDataAppendState) outcome" where
  "InitializeAppend this state =
     (case D_ASSERT (\<not> finished_append this) of
        Some e \<Rightarrow> (Some e, (this, state))
      | None \<Rightarrow>
          (let state1 = state\<lparr>state_vector_data :=
                          resize (state_vector_data state) (length (types this))
                            default_UnifiedVectorFormat\<rparr>;
               this1 = (if segments this = [] then CreateSegment this else this)
           in case last (segments this1) of
                None \<Rightarrow> (Some UndefinedBehavior, (this1, state1))
              | Some segment \<Rightarrow>
                  (let segment1 = (if chunk_data segment = [] then AllocateNewChunk segment
                                   else segment)
                   in (None, (this1\<lparr>segments := set_last (segments this1) (Some segment1)\<rparr>,
                              state1)))))"

fun IsComplexType :: "LogicalType \<Rightarrow> bool" where
  "IsComplexType t = (case InternalType t of STRUCT \<Rightarrow> True | LIST \<Rightarrow> True | _ \<Rightarrow> False)"

text \<open>
  The first loop of \<open>Append\<close>: complex columns of the input are flattened in place and
  the unified view of every column is stored in the append state.
\<close>

definition Append_unify ::
  "idx_t \<Rightarrow> DataChunk \<Rightarrow> ColumnDataAppendState \<Rightarrow> (DataChunk \<times> ColumnDataAppendState) outcome"
  where
  "Append_unify n input state =
     fold (\<lambda>vector_idx r.
             case r of
               (Some e, st) \<Rightarrow> (Some e, st)
             | (None, (inp, st)) \<Rightarrow>
                 if vector_idx < length (data_of inp) \<and>
                    vector_idx < length (state_vector_data st)
                 then
                   (let v = data_of inp ! vector_idx;
                        v1 = (if IsComplexType (GetType v) then Flatten v (size_of inp) else v)
                    in (None,
                        (DataChunk ((data_of inp)[vector_idx := v1]) (size_of inp),
                         st\<lparr>state_vector_data := (state_vector_data st)
                              [vector_idx := ToUnifiedFormat v1 (size_of inp)]\<rparr>)))
                 else (Some UndefinedBehavior, (inp, st)))
          [0..<n] (None, (input, state))"

text \<open>
  The loop over the columns inside the driver loop: every column's copy function is
  called on the window \<open>[offset, offset + append_amount)\<close>, with the root descriptor of
  the column in the current chunk as target.
\<close>

fun Append_columns ::
  "idx_t \<Rightarrow> ColumnDataCopyFunction list \<Rightarrow> ColumnDataAppendState \<Rightarrow> DataChunk \<Rightarrow> idx_t \<Rightarrow> idx_t \<Rightarrow>
     nat list \<Rightarrow> ColumnDataCollectionSegment \<Rightarrow> ColumnDataCollectionSegment outcome option"
  where
  "Append_columns STANDARD_VECTOR_SIZE fs state input offset append_amount [] segment =
     Some (None, segment)"
| "Append_columns STANDARD_VECTOR_SIZE fs state input offset append_amount
       (vector_idx # rest) segment =
     (case chunk_data segment of
        [] \<Rightarrow> Some (Some UndefinedBehavior, segment)
      | _ # _ \<Rightarrow>
          (case (nth_opt fs vector_idx,
                 nth_opt (chunk_vector_data (last (chunk_data segment))) vector_idx,
                 nth_opt (state_vector_data state) vector_idx,
                 nth_opt (data_of input) vector_idx) of
             (Some f, Some index, Some source_data, Some source) \<Rightarrow>
               (case call_copy_function STANDARD_VECTOR_SIZE f index source_data source offset
                       append_amount segment of
                  None \<Rightarrow> None
                | Some (Some e, segment1) \<Rightarrow> Some (Some e, segment1)
                | Some (None, segment1) \<Rightarrow>
                    Append_columns STANDARD_VECTOR_SIZE fs state input offset append_amount
                      rest segment1)
           | _ \<Rightarrow> Some (Some UndefinedBehavior, segment)))"

definition add_chunk_count ::
  "idx_t \<Rightarrow> ColumnDataCollectionSegment \<Rightarrow> ColumnDataCollectionSegment" where
  "add_chunk_count append_amount segment =
     segment\<lparr>chunk_data := set_last (chunk_data segment)
       ((last (chunk_data segment))
          \<lparr>chunk_count := chunk_count (last (chunk_data segment)) + append_amount\<rparr>)\<rparr>"

text \<open>
  One iteration of the while loop of \<open>Append\<close>, entered with rows remaining. It yields
  the exception it raised together with the segment, \<open>None\<close> if a copy function does not
  return, or the remaining rows and the segment for the next test of the loop condition.
\<close>

definition Append_body ::
  "idx_t \<Rightarrow> ColumnDataCopyFunction list \<Rightarrow> idx_t \<Rightarrow> ColumnDataAppendState \<Rightarrow> DataChunk \<Rightarrow> idx_t \<Rightarrow>
     ColumnDataCollectionSegment \<Rightarrow>
     (error \<times> ColumnDataCollectionSegment + idx_t \<times> ColumnDataCollectionSegment) option" where
  "Append_body STANDARD_VECTOR_SIZE fs n state input remaining segment =
     (case chunk_data segment of
        [] \<Rightarrow> Some (Inl (UndefinedBehavior, segment))
      | _ # _ \<Rightarrow>
          (let append_amount =
                 min remaining
                   (idx_sub STANDARD_VECTOR_SIZE (chunk_count (last (chunk_data segment))))
           in case (if append_amount > 0 then
                      (case Append_columns STANDARD_VECTOR_SIZE fs state input
                              (size_of input - remaining) append_amount [0..<n] segment of
                         None \<Rightarrow> None
                       | Some (Some e, segment1) \<Rightarrow> Some (Some e, segment1)
                       | Some (None, segment1) \<Rightarrow>
                           Some (None, add_chunk_count append_amount segment1))
                    else Some (None, segment)) of
                None \<Rightarrow> None
              | Some (Some e, segment1) \<Rightarrow> Some (Inl (e, segment1))
              | Some (None, segment1) \<Rightarrow>
                  (let remaining1 = remaining - append_amount
                   in if remaining1 > 0 then Some (Inr (remaining1, AllocateNewChunk segment1))
                      else Some (Inr (remaining1, segment1)))))"

partial_function (option) Append_loop ::
  "idx_t \<Rightarrow> ColumnDataCopyFunction list \<Rightarrow> idx_t \<Rightarrow> ColumnDataAppendState \<Rightarrow> DataChunk \<Rightarrow> idx_t \<Rightarrow>
     ColumnDataCollectionSegment \<Rightarrow> ColumnDataCollectionSegment outcome option" where
  "Append_loop STANDARD_VECTOR_SIZE fs n state input remaining segment =
     (if remaining > 0 then
        (case Append_body STANDARD_VECTOR_SIZE fs n state input remaining segment of
           None \<Rightarrow> None
         | Some (Inl (e, segment1)) \<Rightarrow> Some (Some e, segment1)
         | Some (Inr (remaining1, segment1)) \<Rightarrow>
             Append_loop STANDARD_VECTOR_SIZE fs n state input remaining1 segment1)
      else Some (None, segment))"

definition Append ::
  "idx_t \<Rightarrow> ColumnDataCollection \<Rightarrow> ColumnDataAppendState \<Rightarrow> DataChunk \<Rightarrow>
     (ColumnDataCollection \<times> ColumnDataAppendState) outcome option" where
  "Append STANDARD_VECTOR_SIZE this state input =
     (case D_ASSERT (\<not> finished_append this) of
        Some e \<Rightarrow> Some (Some e, (this, state))
      | None \<Rightarrow>
          (case D_ASSERT (types this = GetTypes input) of
             Some e \<Rightarrow> Some (Some e, (this, state))
           | None \<Rightarrow>
               (if segments this = [] then Some (Some UndefinedBehavior, (this, state))
                else case last (segments this) of
                  None \<Rightarrow> Some (Some UndefinedBehavior, (this, state))
                | Some segment \<Rightarrow>
                    (case Append_unify (length (types this)) input state of
                       (Some e, (input1, state1)) \<Rightarrow> Some (Some e, (this, state1))
                     | (None, (input1, state1)) \<Rightarrow>
                         (case Append_loop STANDARD_VECTOR_SIZE (copy_functions this)
                                 (length (types this)) state1 input1 (size_of input1) segment of
                            None \<Rightarrow> None
                          | Some (Some e, segment1) \<Rightarrow>
                              Some (Some e,
                                    (this\<lparr>segments := set_last (segments this) (Some segment1)\<rparr>,
                                     state1))
                          | Some (None, segment1) \<Rightarrow>
                              Some (None,
                                    (this\<lparr>segments := set_last (segments this)
                                            (Some (segment1\<lparr>segment_count :=
                                               segment_count segment1 + size_of input1\<rparr>)),
                                          count := count this + size_of input1\<rparr>,
                                     state1)))))))"

text \<open>The convenience \<open>Append\<close> of a chunk with a fresh append state.\<close>

definition Append_chunk ::
  "idx_t \<Rightarrow> ColumnDataCollection \<Rightarrow> DataChunk \<Rightarrow> ColumnDataCollection outcome option" where
  "Append_chunk STANDARD_VECTOR_SIZE this input =
     (case InitializeAppend this \<lparr>state_vector_data = []\<rparr> of
        (Some e, (this1, state1)) \<Rightarrow> Some (Some e, this1)
      | (None, (this1, state1)) \<Rightarrow>
          (case Append STANDARD_VECTOR_SIZE this1 state1 input of
             None \<Rightarrow> None
           | Some (e, (this2, state2)) \<Rightarrow> Some (e, this2)))"


section \<open>Scan\<close>

datatype ColumnDataScanProperties = INVALID_PROPERTIES | ALLOW_ZERO_COPY | DISALLOW_ZERO_COPY

text \<open>
  The pin cache of a chunk state is the list of block handles it holds. Which blocks a
  read pins is the buffer manager's business; the model keeps the cache as an opaque list
  that the scan clears.
\<close>

record ChunkManagementState =
  handles :: "nat list"
  chunk_properties :: ColumnDataScanProperties

record ColumnDataScanState =
  current_chunk_state :: ChunkManagementState
  segment_index :: idx_t
  chunk_index :: idx_t
  current_row_index :: idx_t
  next_row_index :: idx_t
  properties :: ColumnDataScanProperties
  column_ids :: "idx_t list"

definition InitializeScan_ids ::
  "ColumnDataCollection \<Rightarrow> ColumnDataScanState \<Rightarrow> idx_t list \<Rightarrow> ColumnDataScanProperties \<Rightarrow>
     ColumnDataScanState" where
  "InitializeScan_ids this state column_ids_p properties_p =
     state\<lparr>chunk_index := 0, segment_index := 0, current_row_index := 0, next_row_index := 0,
           current_chunk_state := (current_chunk_state state)\<lparr>handles := []\<rparr>,
           properties := properties_p, column_ids := column_ids_p\<rparr>"

definition InitializeScan ::
  "ColumnDataCollection \<Rightarrow> ColumnDataScanState \<Rightarrow> ColumnDataScanProperties \<Rightarrow>
     ColumnDataScanState" where
  "InitializeScan this state properties_p =
     InitializeScan_ids this state [0..<length (types this)] properties_p"

text \<open>
  The while loop of \<open>NextScanIndex\<close>: it moves to the next segment as long as the chunks
  of the current one are exhausted, and tells whether a chunk was found.
\<close>

function NextScanIndex_loop ::
  "ColumnDataCollection \<Rightarrow> ColumnDataScanState \<Rightarrow> error + ColumnDataScanState \<times> bool" where
  "NextScanIndex_loop this state =
     (if segment_index state < length (segments this) then
        (case segments this ! segment_index state of
           None \<Rightarrow> Inl UndefinedBehavior
         | Some segment \<Rightarrow>
             if chunk_index state \<ge> length (chunk_data segment) then
               (let state1 = state\<lparr>chunk_index := 0, segment_index := segment_index state + 1,
                                   current_chunk_state :=
                                     (current_chunk_state state)\<lparr>handles := []\<rparr>\<rparr>
                in if segment_index state1 \<ge> length (segments this) then Inr (state1, False)
                   else NextScanIndex_loop this state1)
             else Inr (state, True))
      else Inl UndefinedBehavior)"
  by pat_completeness auto
termination
  by (relation "measure (\<lambda>(this, state). length (segments this) - segment_index state)") auto

declare NextScanIndex_loop.simps [simp del]

text \<open>
  \<open>NextScanIndex\<close> returns the new state, the row index it publishes and, when it returns
  true, the chunk index and segment index it publishes.
\<close>

definition NextScanIndex ::
  "ColumnDataCollection \<Rightarrow> ColumnDataScanState \<Rightarrow>
     error + ColumnDataScanState \<times> idx_t \<times> (idx_t \<times> idx_t) option" where
  "NextScanIndex this state =
     (let row_index = next_row_index state;
          state1 = state\<lparr>current_row_index := next_row_index state\<rparr>
      in if segment_index state1 \<ge> length (segments this) then Inr (state1, row_index, None)
         else case NextScanIndex_loop this state1 of
                Inl e \<Rightarrow> Inl e
              | Inr (state2, False) \<Rightarrow> Inr (state2, row_index, None)
              | Inr (state2, True) \<Rightarrow>
                  (case segments this ! segment_index state2 of
                     None \<Rightarrow> Inl UndefinedBehavior
                   | Some segment \<Rightarrow>
                       (let state3 = state2\<lparr>next_row_index := next_row_index state2 +
                                        chunk_count (chunk_data segment ! chunk_index state2)\<rparr>
                        in Inr (state3\<lparr>chunk_index := chunk_index state3 + 1\<rparr>, row_index,
                                Some (chunk_index state3, segment_index state3)))))"


subsection \<open>Reading chunks\<close>

text \<open>
  Modelled from the spec: the segment's \<open>ReadChunk\<close>. For each selected column it walks
  the descriptor chain and copies the rows of every descriptor into the output vector;
  the child of a list and the entries of a struct are materialised recursively into the
  children of the output vector. String values of the output are read through the heap
  of the segment.
\<close>

partial_function (option) ReadVectorInternal_loop ::
  "ColumnDataCollectionSegment \<Rightarrow> VectorDataIndex \<Rightarrow> (bool \<times> data_value) list \<Rightarrow>
     (error + (bool \<times> data_value) list) option" where
  "ReadVectorInternal_loop segment next_index target =
     (if next_index \<noteq> None then
        (case GetVectorData segment next_index of
           None \<Rightarrow> Some (Inl UndefinedBehavior)
         | Some current_vdata \<Rightarrow>
             ReadVectorInternal_loop segment (next_data current_vdata)
               (target @ map (\<lambda>k. (region_validity (block current_vdata) k,
                                    region_data (block current_vdata) k))
                             [0..<vcount current_vdata]))
      else Some (Inr target))"

definition FlatVector ::
  "LogicalType \<Rightarrow> (bool \<times> data_value) list \<Rightarrow> memory \<Rightarrow> idx_t \<Rightarrow> Vector list \<Rightarrow> Vector" where
  "FlatVector t target mem list_size entries =
     Vector t
       \<lparr>sel = (\<lambda>i. i),
        validity = Some (\<lambda>i. if i < length target then fst (target ! i) else True),
        data = (\<lambda>i. if i < length target then snd (target ! i) else garbage)\<rparr>
       mem list_size entries"

fun ReadVector ::
    "ColumnDataCollectionSegment \<Rightarrow> LogicalType \<Rightarrow> VectorDataIndex \<Rightarrow>
       (error + Vector \<times> idx_t) option"
  and ReadVector_children ::
    "ColumnDataCollectionSegment \<Rightarrow> (string \<times> LogicalType) list \<Rightarrow> VectorChildIndex \<Rightarrow> idx_t \<Rightarrow>
       (error + Vector list) option" where
  "ReadVector segment (LogicalPlain p) vector_index =
     (case ReadVectorInternal_loop segment vector_index [] of
        None \<Rightarrow> None
      | Some (Inl e) \<Rightarrow> Some (Inl e)
      | Some (Inr target) \<Rightarrow>
          Some (Inr (FlatVector (LogicalPlain p) target (heap_memory (heap segment)) 0 [],
                     length target)))"
| "ReadVector segment (LogicalList child_type) vector_index =
     (case ReadVectorInternal_loop segment vector_index [] of
        None \<Rightarrow> None
      | Some (Inl e) \<Rightarrow> Some (Inl e)
      | Some (Inr target) \<Rightarrow>
          (case GetVectorData segment vector_index of
             None \<Rightarrow> Some (Inl UndefinedBehavior)
           | Some vdata \<Rightarrow>
               (case GetChildIndex segment (child_index vdata) 0 of
                  Inl e \<Rightarrow> Some (Inl e)
                | Inr child \<Rightarrow>
                    (case ReadVector segment child_type child of
                       None \<Rightarrow> None
                     | Some (Inl e) \<Rightarrow> Some (Inl e)
                     | Some (Inr (child_vector, child_count)) \<Rightarrow>
                         Some (Inr (FlatVector (LogicalList child_type) target
                                      (heap_memory (heap segment)) child_count [child_vector],
                                    length target))))))"
| "ReadVector segment (LogicalStruct child_types) vector_index =
     (case ReadVectorInternal_loop segment vector_index [] of
        None \<Rightarrow> None
      | Some (Inl e) \<Rightarrow> Some (Inl e)
      | Some (Inr target) \<Rightarrow>
          (case GetVectorData segment vector_index of
             None \<Rightarrow> Some (Inl UndefinedBehavior)
           | Some vdata \<Rightarrow>
               (case ReadVector_children segment child_types (child_index vdata) 0 of
                  None \<Rightarrow> None
                | Some (Inl e) \<Rightarrow> Some (Inl e)
                | Some (Inr child_vectors) \<Rightarrow>
                    Some (Inr (FlatVector (LogicalStruct child_types) target
                                 (heap_memory (heap segment)) 0 child_vectors,
                               length target)))))"
| "ReadVector_children segment [] ci child_idx = Some (Inr [])"
| "ReadVector_children segment (kv # kvs) ci child_idx =
     (case GetChildIndex segment ci child_idx of
        Inl e \<Rightarrow> Some (Inl e)
      | Inr child \<Rightarrow>
          (case ReadVector segment (snd kv) child of
             None \<Rightarrow> None
           | Some (Inl e) \<Rightarrow> Some (Inl e)
           | Some (Inr (child_vector, child_count)) \<Rightarrow>
               (case ReadVector_children segment kvs ci (Suc child_idx) of
                  None \<Rightarrow> None
                | Some (Inl e) \<Rightarrow> Some (Inl e)
                | Some (Inr vs) \<Rightarrow> Some (Inr (child_vector # vs)))))"

fun ReadChunk_columns ::
  "ColumnDataCollectionSegment \<Rightarrow> ChunkMetaData \<Rightarrow> idx_t list \<Rightarrow> nat list \<Rightarrow> Vector list \<Rightarrow>
     (error + Vector list) option" where
  "ReadChunk_columns segment chunk_meta column_ids_p [] vs = Some (Inr vs)"
| "ReadChunk_columns segment chunk_meta column_ids_p (i # rest) vs =
     (case (nth_opt column_ids_p i, nth_opt vs i) of
        (Some vector_idx, Some result_vector) \<Rightarrow>
          (case nth_opt (chunk_vector_data chunk_meta) vector_idx of
             None \<Rightarrow> Some (Inl UndefinedBehavior)
           | Some index \<Rightarrow>
               (case ReadVector segment (GetType result_vector) index of
                  None \<Rightarrow> None
                | Some (Inl e) \<Rightarrow> Some (Inl e)
                | Some (Inr (v, n)) \<Rightarrow>
                    ReadChunk_columns segment chunk_meta column_ids_p rest (vs[i := v])))
      | _ \<Rightarrow> Some (Inl UndefinedBehavior))"

definition ReadChunk ::
  "ColumnDataCollectionSegment \<Rightarrow> idx_t \<Rightarrow> DataChunk \<Rightarrow> idx_t list \<Rightarrow> (error + DataChunk) option"
  where
  "ReadChunk segment chunk_index_p chunk column_ids_p =
     (case nth_opt (chunk_data segment) chunk_index_p of
        None \<Rightarrow> Some (Inl UndefinedBehavior)
      | Some chunk_meta \<Rightarrow>
          (case ReadChunk_columns segment chunk_meta column_ids_p [0..<length column_ids_p]
                  (data_of chunk) of
             None \<Rightarrow> None
           | Some (Inl e) \<Rightarrow> Some (Inl e)
           | Some (Inr vs) \<Rightarrow> Some (Inr (DataChunk vs (chunk_count chunk_meta)))))"

text \<open>
  Modelled from the spec: a \<open>DataChunk\<close> that is initialised with types or reset holds one
  empty vector per type.
\<close>

fun EmptyVector :: "LogicalType \<Rightarrow> Vector" where
  "EmptyVector (LogicalPlain p) =
     Vector (LogicalPlain p) default_UnifiedVectorFormat (\<lambda>_. []) 0 []"
| "EmptyVector (LogicalList child_type) =
     Vector (LogicalList child_type) default_UnifiedVectorFormat (\<lambda>_. []) 0
       [EmptyVector child_type]"
| "EmptyVector (LogicalStruct child_types) =
     Vector (LogicalStruct child_types) default_UnifiedVectorFormat (\<lambda>_. []) 0
       (map (\<lambda>kv. EmptyVector (snd kv)) child_types)"

definition DataChunk_Initialize :: "LogicalType list \<Rightarrow> DataChunk" where
  "DataChunk_Initialize types_p = DataChunk (map EmptyVector types_p) 0"

definition DataChunk_Reset :: "DataChunk \<Rightarrow> DataChunk" where
  "DataChunk_Reset chunk = DataChunk_Initialize (GetTypes chunk)"

definition InitializeScanChunk :: "ColumnDataCollection \<Rightarrow> DataChunk" where
  "InitializeScanChunk this = DataChunk_Initialize (types this)"

definition InitializeScanChunk_state ::
  "ColumnDataCollection \<Rightarrow> ColumnDataScanState \<Rightarrow> error + DataChunk" where
  "InitializeScanChunk_state this state =
     (case D_ASSERT (column_ids state \<noteq> []) of
        Some e \<Rightarrow> Inl e
      | None \<Rightarrow>
          (case D_ASSERT (list_all (\<lambda>column_idx. column_idx < length (types this))
                            (column_ids state)) of
             Some e \<Rightarrow> Inl e
           | None \<Rightarrow> Inr (DataChunk_Initialize (map (\<lambda>i. types this ! i) (column_ids state)))))"

definition Scan ::
  "ColumnDataCollection \<Rightarrow> ColumnDataScanState \<Rightarrow> DataChunk \<Rightarrow>
     (error + bool \<times> ColumnDataScanState \<times> DataChunk) option" where
  "Scan this state result =
     (let result1 = DataChunk_Reset result in
      case NextScanIndex this state of
        Inl e \<Rightarrow> Some (Inl e)
      | Inr (state1, row_index, None) \<Rightarrow> Some (Inr (False, state1, result1))
      | Inr (state1, row_index, Some (chunk_index_p, segment_index_p)) \<Rightarrow>
          (case nth_opt (segments this) segment_index_p of
             Some (Some segment) \<Rightarrow>
               (let state2 = state1\<lparr>current_chunk_state :=
                      (current_chunk_state state1)\<lparr>chunk_properties := properties state1\<rparr>\<rparr>
                in case ReadChunk segment chunk_index_p result1 (column_ids state2) of
                     None \<Rightarrow> None
                   | Some (Inl e) \<Rightarrow> Some (Inl e)
                   | Some (Inr result2) \<Rightarrow> Some (Inr (True, state2, result2)))
           | _ \<Rightarrow> Some (Inl UndefinedBehavior)))"


subsection \<open>Rows\<close>

record ColumnDataRow =
  row_chunk :: DataChunk
  row_index :: idx_t
  base_index :: idx_t

definition ColumnDataRow_GetValue :: "ColumnDataRow \<Rightarrow> idx_t \<Rightarrow> error + Value" where
  "ColumnDataRow_GetValue row column_index =
     (case D_ASSERT (column_index < length (data_of (row_chunk row))) of
        Some e \<Rightarrow> Inl e
      | None \<Rightarrow>
          (case D_ASSERT (row_index row < size_of (row_chunk row)) of
             Some e \<Rightarrow> Inl e
           | None \<Rightarrow> Inr (GetValue (data_of (row_chunk row) ! column_index) (row_index row))))"

definition RowIndex :: "ColumnDataRow \<Rightarrow> idx_t" where
  "RowIndex row = base_index row + row_index row"

record ColumnDataRowCollection =
  rows :: "ColumnDataRow list"
  chunks :: "DataChunk list"

definition empty_ColumnDataScanState :: ColumnDataScanState where
  "empty_ColumnDataScanState =
     \<lparr>current_chunk_state = \<lparr>handles = [], chunk_properties = INVALID_PROPERTIES\<rparr>,
      segment_index = 0, chunk_index = 0, current_row_index = 0, next_row_index = 0,
      properties = INVALID_PROPERTIES, column_ids = []\<rparr>"

text \<open>The loop of the row collection's constructor that reads all the chunks.\<close>

partial_function (option) read_all_chunks ::
  "ColumnDataCollection \<Rightarrow> ColumnDataScanState \<Rightarrow> DataChunk list \<Rightarrow> (error + DataChunk list) option"
  where
  "read_all_chunks collection scan_state chunks_p =
     (case Scan collection scan_state (InitializeScanChunk collection) of
        None \<Rightarrow> None
      | Some (Inl e) \<Rightarrow> Some (Inl e)
      | Some (Inr (found, scan_state1, chunk)) \<Rightarrow>
          if \<not> found then Some (Inr chunks_p)
          else read_all_chunks collection scan_state1 (chunks_p @ [chunk]))"

fun create_rows :: "DataChunk list \<Rightarrow> idx_t \<Rightarrow> ColumnDataRow list" where
  "create_rows [] base_row = []"
| "create_rows (chunk # cs) base_row =
     map (\<lambda>row_idx. \<lparr>row_chunk = chunk, row_index = row_idx, base_index = base_row\<rparr>)
         [0..<size_of chunk]
     @ create_rows cs (base_row + size_of chunk)"

definition GetRows :: "ColumnDataCollection \<Rightarrow> (error + ColumnDataRowCollection) option" where
  "GetRows collection =
     (if Count collection = 0 then Some (Inr \<lparr>rows = [], chunks = []\<rparr>)
      else case read_all_chunks collection
                  (InitializeScan collection empty_ColumnDataScanState ALLOW_ZERO_COPY) [] of
             None \<Rightarrow> None
           | Some (Inl e) \<Rightarrow> Some (Inl e)
           | Some (Inr chunks_p) \<Rightarrow> Some (Inr \<lparr>rows = create_rows chunks_p 0, chunks = chunks_p\<rparr>))"

definition ColumnDataRowCollection_GetValue ::
  "ColumnDataRowCollection \<Rightarrow> idx_t \<Rightarrow> idx_t \<Rightarrow> error + Value" where
  "ColumnDataRowCollection_GetValue row_collection column index =
     (case nth_opt (rows row_collection) index of
        None \<Rightarrow> Inl UndefinedBehavior
      | Some row \<Rightarrow> ColumnDataRow_GetValue row column)"

section \<open>Combine\<close>

text \<open>
  \<open>Verify\<close> checks the counts only when it is compiled with \<open>DEBUG\<close>, a parameter of the
  model.
\<close>

fun Verify_segments ::
  "ColumnDataCollectionSegment option list \<Rightarrow> idx_t \<Rightarrow> error + idx_t" where
  "Verify_segments [] total_segment_count = Inr total_segment_count"
| "Verify_segments (None # rest) total_segment_count = Inl UndefinedBehavior"
| "Verify_segments (Some segment # rest) total_segment_count =
     (case segment_Verify segment of
        Some e \<Rightarrow> Inl e
      | None \<Rightarrow> Verify_segments rest (total_segment_count + segment_count segment))"

definition Verify :: "bool \<Rightarrow> ColumnDataCollection \<Rightarrow> error option" where
  "Verify DEBUG this =
     (if DEBUG then
        (case Verify_segments (segments this) 0 of
           Inl e \<Rightarrow> Some e
         | Inr total_segment_count \<Rightarrow> D_ASSERT (total_segment_count = count this))
      else None)"

text \<open>
  \<open>Combine\<close> returns the exception it raised, if any, and both collections as it leaves
  them. Moving the segments out of the other collection leaves a null pointer in the
  place of each.
\<close>

definition Combine ::
  "bool \<Rightarrow> ColumnDataCollection \<Rightarrow> ColumnDataCollection \<Rightarrow>
     (ColumnDataCollection \<times> ColumnDataCollection) outcome" where
  "Combine DEBUG this other =
     (if count other = 0 then (None, (this, other))
      else if types this \<noteq> types other then
        (Some (InternalException
           ''Attempting to combine ColumnDataCollections with mismatching types''),
         (this, other))
      else
        (let this1 = this\<lparr>count := count this + count other,
                          segments := segments this @ segments other\<rparr>;
             other1 = other\<lparr>segments := map (\<lambda>_. None) (segments other)\<rparr>
         in (Verify DEBUG this1, (this1, other1))))"

section \<open>Fetch and helpers\<close>

fun ChunkCount_segments ::
  "ColumnDataCollectionSegment option list \<Rightarrow> idx_t \<Rightarrow> error + idx_t" where
  "ChunkCount_segments [] chunk_count_p = Inr chunk_count_p"
| "ChunkCount_segments (None # rest) chunk_count_p = Inl UndefinedBehavior"
| "ChunkCount_segments (Some segment # rest) chunk_count_p =
     ChunkCount_segments rest (chunk_count_p + segment_ChunkCount segment)"

definition ChunkCount :: "ColumnDataCollection \<Rightarrow> error + idx_t" where
  "ChunkCount this = ChunkCount_segments (segments this) 0"

definition Reset :: "ColumnDataCollection \<Rightarrow> ColumnDataCollection" where
  "Reset this = this\<lparr>count := 0, segments := []\<rparr>"

text \<open>
  \<open>ResultEquals\<close> takes the value equality \<open>DefaultValuesAreEqual\<close> and the formatting
  of the mismatch message as parameters; both belong to external collaborators. It
  returns its boolean result and the error message as it leaves it.
\<close>

fun ResultEquals_cells ::
  "(Value \<Rightarrow> Value \<Rightarrow> bool) \<Rightarrow> (Value \<Rightarrow> Value \<Rightarrow> idx_t \<Rightarrow> idx_t \<Rightarrow> string) \<Rightarrow>
     ColumnDataRowCollection \<Rightarrow> ColumnDataRowCollection \<Rightarrow> string \<Rightarrow> (idx_t \<times> idx_t) list \<Rightarrow>
     error + bool \<times> string" where
  "ResultEquals_cells DefaultValuesAreEqual Format left_rows right_rows error_message [] =
     Inr (True, error_message)"
| "ResultEquals_cells DefaultValuesAreEqual Format left_rows right_rows error_message
       ((r, c) # rest) =
     (case ColumnDataRowCollection_GetValue left_rows c r of
        Inl e \<Rightarrow> Inl e
      | Inr lvalue \<Rightarrow>
          (case ColumnDataRowCollection_GetValue left_rows c r of
             Inl e \<Rightarrow> Inl e
           | Inr rvalue \<Rightarrow>
               if \<not> DefaultValuesAreEqual lvalue rvalue
               then Inr (False, Format lvalue rvalue r c)
               else ResultEquals_cells DefaultValuesAreEqual Format left_rows right_rows
                      error_message rest))"

definition ResultEquals ::
  "(Value \<Rightarrow> Value \<Rightarrow> bool) \<Rightarrow> (Value \<Rightarrow> Value \<Rightarrow> idx_t \<Rightarrow> idx_t \<Rightarrow> string) \<Rightarrow>
     ColumnDataCollection \<Rightarrow> ColumnDataCollection \<Rightarrow> string \<Rightarrow> (error + bool \<times> string) option"
  where
  "ResultEquals DefaultValuesAreEqual Format left right error_message =
     (if ColumnCount left \<noteq> ColumnCount right then Some (Inr (False, ''Column count mismatch''))
      else if Count left \<noteq> Count right then Some (Inr (False, ''Row count mismatch''))
      else case GetRows left of
             None \<Rightarrow> None
           | Some (Inl e) \<Rightarrow> Some (Inl e)
           | Some (Inr left_rows) \<Rightarrow>
               (case GetRows right of
                  None \<Rightarrow> None
                | Some (Inl e) \<Rightarrow> Some (Inl e)
                | Some (Inr right_rows) \<Rightarrow>
                    Some (ResultEquals_cells DefaultValuesAreEqual Format left_rows right_rows
                            error_message
                            (List.product [0..<Count left] [0..<ColumnCount left]))))"


section \<open>Example collections\<close>

text \<open>
  Collections with one 32-bit integer column or one string column, built by the
  constructor with types and one \<open>Append\<close> with \<open>STANDARD_VECTOR_SIZE = 1024\<close>.
\<close>

definition int32_vector :: "int list \<Rightarrow> Vector" where
  "int32_vector xs =
     Vector (LogicalPlain INT32)
       \<lparr>sel = (\<lambda>i. i), validity = None,
        data = (\<lambda>i. if i < length xs then fixed_value (xs ! i) else garbage)\<rparr>
       (\<lambda>_. []) 0 []"

definition the_collection :: "ColumnDataCollection outcome option \<Rightarrow> ColumnDataCollection" where
  "the_collection r = (case r of Some (e, c) \<Rightarrow> c | None \<Rightarrow> uninitialized_collection)"

definition new_collection :: "LogicalType list \<Rightarrow> ColumnDataCollection" where
  "new_collection ts =
     (case ColumnDataCollection_Allocator_types 0 ts of
        Inl e \<Rightarrow> uninitialized_collection
      | Inr this \<Rightarrow> this)"

definition int32_collection :: "int list \<Rightarrow> ColumnDataCollection" where
  "int32_collection xs =
     the_collection (Append_chunk 1024 (new_collection [LogicalPlain INT32])
                       (DataChunk [int32_vector xs] (length xs)))"

lemmas model_defs =
  D_ASSERT_def idx_sub_def Initialize_def uninitialized_collection_def
  ColumnDataCollection_Allocator_types_def ColumnDataCollection_shared_def
  ColumnDataCollection_copy_def ColumnDataCollection_Allocator_def CreateSegment_def
  GetVectorData_def uninitialized_block_def AllocateVectorInternal_def AllocateVector_def
  AddChildIndex_def GetChildIndex_def set_child_index_def AllocateNewChunk_def
  segment_ChunkCount_def segment_Verify_def AddBlob_def heap_memory_def GetVectorMetaData_def
  Assign_def SetAllValid_def SetInvalid_def copy_rows_def TemplatedColumnDataCopy_def
  TemplatedColumnDataCopy_body_def Append_body_def ColumnDataCopy_list_child_def
  ColumnDataCopy_list_size_def ColumnDataCopyStruct_child_types_def
  ColumnDataCopyStruct_child_def
  nth_opt_def default_UnifiedVectorFormat_def resize_def set_last_def InitializeAppend_def
  Append_unify_def add_chunk_count_def Append_def Append_chunk_def InitializeScan_ids_def
  InitializeScan_def NextScanIndex_def FlatVector_def ReadChunk_def DataChunk_Initialize_def
  DataChunk_Reset_def InitializeScanChunk_def Scan_def ColumnDataRow_GetValue_def RowIndex_def
  empty_ColumnDataScanState_def GetRows_def ColumnDataRowCollection_GetValue_def Verify_def
  Combine_def ChunkCount_def Reset_def ResultEquals_def Count_def ColumnCount_def GetTypes_def
  ToUnifiedFormat_def AllValid_def RowIsValid_def INVALID_INDEX_def Let_def

lemmas loop_simps =
  TemplatedColumnDataCopy_loop.simps current_list_size_loop.simps Append_loop.simps
  ReadVectorInternal_loop.simps read_all_chunks.simps NextScanIndex_loop.simps
  call_copy_function.simps ColumnDataCopyStruct_children.simps

lemmas example_defs =
  int32_vector_def the_collection_def new_collection_def int32_collection_def

lemma new_collection_int32:
  "new_collection [LogicalPlain INT32] =
     \<lparr>allocator = Some (ColumnDataAllocator_of_Allocator 0), types = [LogicalPlain INT32],
      count = 0, segments = [],
      copy_functions = [ColumnDataCopyFunction (ColumnDataCopy T_int32_t) []],
      finished_append = False\<rparr>"
  by (simp add: new_collection_def model_defs)

lemma new_collection_varchar:
  "new_collection [LogicalPlain VARCHAR] =
     \<lparr>allocator = Some (ColumnDataAllocator_of_Allocator 0), types = [LogicalPlain VARCHAR],
      count = 0, segments = [],
      copy_functions = [ColumnDataCopyFunction (ColumnDataCopy T_string_t) []],
      finished_append = False\<rparr>"
  by (simp add: new_collection_def model_defs)

section \<open>Construction by copy\<close>

lemma Initialize_result:
  assumes "types_p \<noteq> []" and "push_back_copy_functions types_p [] = Inr fs"
  shows "Initialize uninitialized_collection types_p =
           Inr \<lparr>allocator = None, types = types_p, count = 0, segments = [],
                copy_functions = fs, finished_append = False\<rparr>"
  using assms by (simp add: Initialize_def uninitialized_collection_def D_ASSERT_def)

text \<open>
  C10, as stated, fails for a source without types: copying the collection that was
  explicitly initialized without types violates the assertion of \<open>Initialize\<close>, no
  collection is produced and the source is not marked as finished.
\<close>

theorem copy_of_collection_without_types_raises:
  "ColumnDataCollection_copy (ColumnDataCollection_Allocator 0) =
     (Inl (InternalException ''Assertion triggered''), ColumnDataCollection_Allocator 0)"
  by (simp add: model_defs)

text \<open>
  C10, amended: for every source collection whose schema is not empty and holds only
  types that \<open>GetCopyFunction\<close> supports, the copy constructor produces a new collection
  that shares the allocator and the schema of the source and holds no rows and no
  segments; the source keeps its count and its segments, and its \<open>finished_append\<close> is
  set.
\<close>

theorem copy_constructor_shares_allocator_and_schema:
  assumes "types other \<noteq> []"
    and "push_back_copy_functions (types other) [] = Inr fs"
  shows "\<exists>new. ColumnDataCollection_copy other = (Inr new, other\<lparr>finished_append := True\<rparr>)
           \<and> allocator new = allocator other \<and> types new = types other \<and> Count new = 0
           \<and> segments new = [] \<and> copy_functions new = fs \<and> finished_append new = False
           \<and> count (other\<lparr>finished_append := True\<rparr>) = count other
           \<and> segments (other\<lparr>finished_append := True\<rparr>) = segments other"
  using assms
  by (simp add: ColumnDataCollection_copy_def ColumnDataCollection_shared_def Initialize_result
      D_ASSERT_def Count_def)

theorem copy_constructor_witness:
  "\<exists>new. ColumnDataCollection_copy (int32_collection [10, 20]) =
           (Inr new, (int32_collection [10, 20])\<lparr>finished_append := True\<rparr>)
         \<and> allocator new = allocator (int32_collection [10, 20])
         \<and> types new = [LogicalPlain INT32] \<and> Count new = 0 \<and> segments new = []
         \<and> count ((int32_collection [10, 20])\<lparr>finished_append := True\<rparr>) = 2"
proof -
  have t: "types (int32_collection [10, 20]) = [LogicalPlain INT32]"
    and c: "count (int32_collection [10, 20]) = 2"
    by (simp_all add: example_defs model_defs loop_simps upt_rec)
  have f: "push_back_copy_functions (types (int32_collection [10, 20])) [] =
             Inr [ColumnDataCopyFunction (ColumnDataCopy T_int32_t) []]"
    by (simp add: t)
  have n: "types (int32_collection [10, 20]) \<noteq> []"
    by (simp add: t)
  from copy_constructor_shares_allocator_and_schema [OF n f]
  show ?thesis by (auto simp: t c)
qed


section \<open>Schema mismatch\<close>

text \<open>
  C3, as stated, fails for \<open>Combine\<close> with a peer that holds no rows: the peer is ignored
  before its types are compared, so a mismatched schema raises nothing.
\<close>

theorem combine_with_mismatched_empty_peer_does_not_raise:
  "types (new_collection [LogicalPlain INT32]) \<noteq> types (new_collection [LogicalPlain VARCHAR])
   \<and> Combine True (new_collection [LogicalPlain INT32]) (new_collection [LogicalPlain VARCHAR]) =
       (None, (new_collection [LogicalPlain INT32], new_collection [LogicalPlain VARCHAR]))"
  by (simp add: new_collection_int32 new_collection_varchar Combine_def)

text \<open>
  C3, amended: \<open>Append\<close> with a chunk whose type list differs from the schema raises an
  internal error and leaves the collection and the append state as they were; \<open>Combine\<close>
  with a peer that holds rows and whose type list differs raises an internal error and
  leaves both collections as they were; \<open>Combine\<close> with a peer that holds no rows returns
  without an error and without a change, whatever the types of the peer.
\<close>

theorem schema_mismatch_raises_and_changes_nothing:
  "(types this \<noteq> GetTypes input \<longrightarrow>
      Append STANDARD_VECTOR_SIZE this state input =
        Some (Some (InternalException ''Assertion triggered''), (this, state)))
   \<and> (count other \<noteq> 0 \<longrightarrow> types this \<noteq> types other \<longrightarrow>
        Combine DEBUG this other =
          (Some (InternalException
             ''Attempting to combine ColumnDataCollections with mismatching types''),
           (this, other)))
   \<and> (count other = 0 \<longrightarrow> Combine DEBUG this other = (None, (this, other)))"
  by (simp add: Append_def Combine_def D_ASSERT_def)

theorem schema_mismatch_witness:
  "Append 1024 (new_collection [LogicalPlain VARCHAR]) \<lparr>state_vector_data = []\<rparr>
       (DataChunk [int32_vector [1]] 1) =
     Some (Some (InternalException ''Assertion triggered''),
           (new_collection [LogicalPlain VARCHAR], \<lparr>state_vector_data = []\<rparr>))
   \<and> count (int32_collection [10, 20]) \<noteq> 0
   \<and> Combine True (new_collection [LogicalPlain VARCHAR]) (int32_collection [10, 20]) =
       (Some (InternalException
          ''Attempting to combine ColumnDataCollections with mismatching types''),
        (new_collection [LogicalPlain VARCHAR], int32_collection [10, 20]))
   \<and> Combine True (int32_collection [10, 20]) (new_collection [LogicalPlain VARCHAR]) =
       (None, (int32_collection [10, 20], new_collection [LogicalPlain VARCHAR]))"
proof -
  have t: "types (int32_collection [10, 20]) = [LogicalPlain INT32]"
    and c: "count (int32_collection [10, 20]) = 2"
    by (simp_all add: example_defs model_defs loop_simps upt_rec)
  have v: "types (new_collection [LogicalPlain VARCHAR]) = [LogicalPlain VARCHAR]"
    and e: "count (new_collection [LogicalPlain VARCHAR]) = 0"
    by (simp_all add: new_collection_varchar)
  have g: "GetTypes (DataChunk [int32_vector [1]] n) = [LogicalPlain INT32]" for n
    by (simp add: GetTypes_def int32_vector_def)
  show ?thesis
    using schema_mismatch_raises_and_changes_nothing
            [of "new_collection [LogicalPlain VARCHAR]" "DataChunk [int32_vector [1]] 1" 1024
                "\<lparr>state_vector_data = []\<rparr>" "int32_collection [10, 20]" True]
          schema_mismatch_raises_and_changes_nothing
            [of "int32_collection [10, 20]" "DataChunk [int32_vector [1]] 1" 1024
                "\<lparr>state_vector_data = []\<rparr>" "new_collection [LogicalPlain VARCHAR]" True]
    by (simp add: t c v e g)
qed

section \<open>Combine leaves the count of the other collection\<close>

text \<open>
  C2: the code does not leave the other collection empty. With \<open>a\<close> holding the rows
  10, 20 and \<open>b\<close> holding the rows 30, 40, 50, \<open>a.Combine(b)\<close> returns normally; the count
  of \<open>a\<close> is 5, but the count of \<open>b\<close> is still 3 although its only segment has been moved
  out.
\<close>

theorem combine_keeps_count_of_other:
  "(case Combine True (int32_collection [10, 20]) (int32_collection [30, 40, 50]) of
      (e, (a, b)) \<Rightarrow> (e, Count a, Count b, segments b)) = (None, 5, 3, [None])"
  by (simp add: example_defs model_defs loop_simps upt_rec)

section \<open>ResultEquals compares the left collection with itself\<close>

text \<open>
  C1: the code reads both values of a comparison from the rows of the left collection.
  For a left collection with the single row 1 and a right collection with the single row
  2, equal in column count and row count, \<open>ResultEquals\<close> under the equality of values
  returns true and leaves the error message as it was.
\<close>

theorem result_equals_misses_difference:
  "ColumnCount (int32_collection [1]) = ColumnCount (int32_collection [2])
   \<and> Count (int32_collection [1]) = Count (int32_collection [2])
   \<and> ResultEquals (=) (\<lambda>lvalue rvalue r c. ''mismatch'')
        (int32_collection [1]) (int32_collection [2]) [] = Some (Inr (True, []))"
  by (simp add: example_defs model_defs loop_simps upt_rec)


section \<open>The order of a scan\<close>

text \<open>
  The order in which a scan is to deliver the chunks: all pairs of a segment index and a
  chunk index of that segment, in lexicographic order; the rows that precede a position
  are counted with \<open>position_count\<close>.
\<close>

definition scan_positions :: "ColumnDataCollectionSegment list \<Rightarrow> (idx_t \<times> idx_t) list" where
  "scan_positions segs =
     concat (map (\<lambda>i. map (\<lambda>j. (i, j)) [0..<length (chunk_data (segs ! i))]) [0..<length segs])"

definition position_count :: "ColumnDataCollectionSegment list \<Rightarrow> idx_t \<times> idx_t \<Rightarrow> idx_t" where
  "position_count segs p = chunk_count (chunk_data (segs ! fst p) ! snd p)"

text \<open>
  Repeated calls: \<open>n\<close> calls of \<open>NextScanIndex\<close> in a row, with the row index and the
  indices that each call publishes. \<open>expected_call segs k\<close> is what call number \<open>k\<close> of
  a scan is to publish.
\<close>

fun NextScanIndex_calls ::
  "ColumnDataCollection \<Rightarrow> ColumnDataScanState \<Rightarrow> nat \<Rightarrow>
     error + ColumnDataScanState \<times> (idx_t \<times> (idx_t \<times> idx_t) option) list" where
  "NextScanIndex_calls this state 0 = Inr (state, [])"
| "NextScanIndex_calls this state (Suc n) =
     (case NextScanIndex this state of
        Inl e \<Rightarrow> Inl e
      | Inr (state1, row, published) \<Rightarrow>
          (case NextScanIndex_calls this state1 n of
             Inl e \<Rightarrow> Inl e
           | Inr (state2, rs) \<Rightarrow> Inr (state2, (row, published) # rs)))"

definition expected_call ::
  "ColumnDataCollectionSegment list \<Rightarrow> nat \<Rightarrow> idx_t \<times> (idx_t \<times> idx_t) option" where
  "expected_call segs k =
     (let ps = scan_positions segs in
      if k < length ps
      then (sum_list (map (position_count segs) (take k ps)), Some (snd (ps ! k), fst (ps ! k)))
      else (sum_list (map (position_count segs) ps), None))"

definition remaining_positions ::
  "ColumnDataCollectionSegment list \<Rightarrow> idx_t \<Rightarrow> idx_t \<Rightarrow> (idx_t \<times> idx_t) list" where
  "remaining_positions segs i j =
     (if i < length segs then
        map (\<lambda>j. (i, j)) [j..<length (chunk_data (segs ! i))] @
        concat (map (\<lambda>i. map (\<lambda>j. (i, j)) [0..<length (chunk_data (segs ! i))])
                    [Suc i..<length segs])
      else [])"

definition clear_handles :: "ColumnDataScanState \<Rightarrow> ColumnDataScanState" where
  "clear_handles state = state\<lparr>current_chunk_state := (current_chunk_state state)\<lparr>handles := []\<rparr>\<rparr>"

lemma remaining_positions_start: "remaining_positions segs 0 0 = scan_positions segs"
  by (cases segs) (simp_all add: remaining_positions_def scan_positions_def upt_conv_Cons del: upt_Suc)

lemma remaining_positions_exhausted:
  assumes "i < length segs" and "length (chunk_data (segs ! i)) \<le> j"
  shows "remaining_positions segs i j = remaining_positions segs (Suc i) 0"
  using assms by (simp add: remaining_positions_def upt_conv_Cons del: upt_Suc)

lemma remaining_positions_next:
  assumes "i < length segs" and "j < length (chunk_data (segs ! i))"
  shows "remaining_positions segs i j = (i, j) # remaining_positions segs i (Suc j)"
  using assms by (simp add: remaining_positions_def upt_conv_Cons del: upt_Suc)

definition loop_result ::
  "ColumnDataCollectionSegment list \<Rightarrow> ColumnDataScanState \<Rightarrow> (idx_t \<times> idx_t) list \<Rightarrow>
     ColumnDataScanState \<times> bool" where
  "loop_result segs state ps =
     (case ps of
        [] \<Rightarrow> (clear_handles state\<lparr>chunk_index := 0, segment_index := length segs\<rparr>, False)
      | p # _ \<Rightarrow>
          ((if fst p = segment_index state then state else clear_handles state)
             \<lparr>chunk_index := snd p, segment_index := fst p\<rparr>, True))"

lemma loop_result_advance:
  assumes "\<And>p. p \<in> set ps \<Longrightarrow> segment_index state < fst p"
  shows "loop_result segs
           (state\<lparr>chunk_index := 0, segment_index := segment_index state + 1,
                  current_chunk_state := (current_chunk_state state)\<lparr>handles := []\<rparr>\<rparr>) ps =
         loop_result segs state ps"
proof (cases ps)
  case Nil
  then show ?thesis by (simp add: loop_result_def clear_handles_def)
next
  case (Cons p qs)
  then have "segment_index state < fst p" using assms by simp
  then show ?thesis using Cons by (simp add: loop_result_def clear_handles_def)
qed

lemma NextScanIndex_loop_spec:
  assumes "segments this = map Some segs" and "segment_index state < length segs"
  shows "NextScanIndex_loop this state =
           Inr (loop_result segs state
                  (remaining_positions segs (segment_index state) (chunk_index state)))"
  using assms
proof (induction this state rule: NextScanIndex_loop.induct)
  case (1 this state)
  let ?i = "segment_index state" and ?j = "chunk_index state"
  have seg: "segments this ! ?i = Some (segs ! ?i)" using 1 by simp
  have len: "length (segments this) = length segs" using 1 by simp
  show ?case
  proof (cases "length (chunk_data (segs ! ?i)) \<le> ?j")
    case False
    then show ?thesis
      using 1(3) seg len
      by (subst NextScanIndex_loop.simps) (simp add: remaining_positions_next loop_result_def)
  next
    case True
    note ex = remaining_positions_exhausted [OF 1(3) True]
    let ?s1 = "state\<lparr>chunk_index := 0, segment_index := ?i + 1,
                     current_chunk_state := (current_chunk_state state)\<lparr>handles := []\<rparr>\<rparr>"
    have unfold: "NextScanIndex_loop this state =
        (if length segs \<le> Suc ?i then Inr (?s1, False) else NextScanIndex_loop this ?s1)"
      using 1(3) seg len True by (subst NextScanIndex_loop.simps) (simp add: Let_def)
    show ?thesis
    proof (cases "Suc ?i < length segs")
      case False
      then have "remaining_positions segs (Suc ?i) 0 = []"
        by (simp add: remaining_positions_def)
      moreover have "Suc ?i = length segs" using False 1(3) by simp
      ultimately show ?thesis
        using False by (simp add: unfold ex loop_result_def clear_handles_def)
    next
      case Suc: True
      have IH: "NextScanIndex_loop this ?s1 =
                  Inr (loop_result segs ?s1 (remaining_positions segs (Suc ?i) 0))"
        using "1.IH" [OF _ seg _ refl _ "1.prems"(1)] 1(3) True Suc len by simp
      have "fst p > ?i" if "p \<in> set (remaining_positions segs (Suc ?i) 0)" for p
        using that by (auto simp: remaining_positions_def split: if_splits)
      then have "loop_result segs ?s1 (remaining_positions segs (Suc ?i) 0) =
                 loop_result segs state (remaining_positions segs (Suc ?i) 0)"
        by (rule loop_result_advance)
      then show ?thesis using Suc IH by (simp add: unfold ex)
    qed
  qed
qed


lemma NextScanIndex_at_end:
  assumes "segments this = map Some segs" and "length segs \<le> segment_index state"
  shows "NextScanIndex this state =
           Inr (state\<lparr>current_row_index := next_row_index state\<rparr>, next_row_index state, None)"
  using assms by (simp add: NextScanIndex_def)

lemma remaining_positions_in_range:
  assumes "p \<in> set (remaining_positions segs i j)"
  shows "fst p < length segs \<and> snd p < length (chunk_data (segs ! fst p))"
  using assms by (auto simp: remaining_positions_def split: if_splits)

lemma remaining_positions_tail:
  assumes "remaining_positions segs i j = p # ps"
  shows "remaining_positions segs (fst p) (Suc (snd p)) = ps"
  using assms
proof (induction "length segs - i" arbitrary: i j)
  case 0
  then show ?case by (simp add: remaining_positions_def)
next
  case (Suc n)
  then have i: "i < length segs" by simp
  show ?case
  proof (cases "j < length (chunk_data (segs ! i))")
    case True
    then show ?thesis using Suc.prems i by (auto simp: remaining_positions_next)
  next
    case False
    then have "remaining_positions segs (Suc i) 0 = p # ps"
      using Suc.prems i by (simp add: remaining_positions_exhausted)
    moreover have "n = length segs - Suc i" using Suc(2) by simp
    ultimately show ?thesis using Suc(1) by blast
  qed
qed


lemma NextScanIndex_none:
  assumes "segments this = map Some segs"
    and "remaining_positions segs (segment_index state) (chunk_index state) = []"
  shows "\<exists>state1. NextScanIndex this state = Inr (state1, next_row_index state, None)
           \<and> next_row_index state1 = next_row_index state
           \<and> remaining_positions segs (segment_index state1) (chunk_index state1) = []
           \<and> handles (current_chunk_state state1) =
               (if segment_index state1 = segment_index state
                then handles (current_chunk_state state) else [])"
proof (cases "segment_index state < length segs")
  case False
  then show ?thesis
    using assms by (simp add: NextScanIndex_def remaining_positions_def)
next
  case True
  let ?s1 = "state\<lparr>current_row_index := next_row_index state\<rparr>"
  have "NextScanIndex_loop this ?s1 = Inr (loop_result segs ?s1 [])"
    using NextScanIndex_loop_spec [of this segs ?s1] assms True by simp
  then show ?thesis
    using assms(1) True
    by (auto simp add: NextScanIndex_def loop_result_def clear_handles_def
        remaining_positions_def Let_def)
qed

lemma NextScanIndex_some:
  assumes "segments this = map Some segs"
    and "remaining_positions segs (segment_index state) (chunk_index state) = p # ps"
  shows "\<exists>state1. NextScanIndex this state =
                    Inr (state1, next_row_index state, Some (snd p, fst p))
           \<and> next_row_index state1 = next_row_index state + position_count segs p
           \<and> segment_index state1 = fst p \<and> chunk_index state1 = Suc (snd p)
           \<and> handles (current_chunk_state state1) =
               (if segment_index state1 = segment_index state
                then handles (current_chunk_state state) else [])"
proof -
  have lt: "segment_index state < length segs"
    using assms(2) by (auto simp: remaining_positions_def split: if_splits)
  have "p \<in> set (remaining_positions segs (segment_index state) (chunk_index state))"
    using assms(2) by simp
  then have rng: "fst p < length segs" by (rule remaining_positions_in_range [THEN conjunct1])
  let ?s1 = "state\<lparr>current_row_index := next_row_index state\<rparr>"
  have "NextScanIndex_loop this ?s1 = Inr (loop_result segs ?s1 (p # ps))"
    using NextScanIndex_loop_spec [of this segs ?s1] assms lt by simp
  then show ?thesis
    using assms(1) lt rng
    by (auto simp add: NextScanIndex_def loop_result_def clear_handles_def position_count_def
        Let_def)
qed

fun expected_calls ::
  "ColumnDataCollectionSegment list \<Rightarrow> idx_t \<Rightarrow> (idx_t \<times> idx_t) list \<Rightarrow> nat \<Rightarrow>
     (idx_t \<times> (idx_t \<times> idx_t) option) list" where
  "expected_calls segs r ps 0 = []"
| "expected_calls segs r [] (Suc n) = (r, None) # expected_calls segs r [] n"
| "expected_calls segs r (p # ps) (Suc n) =
     (r, Some (snd p, fst p)) # expected_calls segs (r + position_count segs p) ps n"

lemma NextScanIndex_calls_spec:
  assumes "segments this = map Some segs"
  shows "\<exists>state1. NextScanIndex_calls this state n =
           Inr (state1, expected_calls segs (next_row_index state)
                  (remaining_positions segs (segment_index state) (chunk_index state)) n)"
proof (induction n arbitrary: state)
  case 0
  show ?case by simp
next
  case (Suc n)
  show ?case
  proof (cases "remaining_positions segs (segment_index state) (chunk_index state)")
    case Nil
    from NextScanIndex_none [OF assms Nil] obtain state1 where
      s: "NextScanIndex this state = Inr (state1, next_row_index state, None)"
      "next_row_index state1 = next_row_index state"
      "remaining_positions segs (segment_index state1) (chunk_index state1) = []"
      by blast
    from Suc [of state1] obtain state2 where
      "NextScanIndex_calls this state1 n =
         Inr (state2, expected_calls segs (next_row_index state) [] n)"
      using s by auto
    then show ?thesis using s Nil by simp
  next
    case (Cons p ps)
    from NextScanIndex_some [OF assms Cons] obtain state1 where
      s: "NextScanIndex this state = Inr (state1, next_row_index state, Some (snd p, fst p))"
      "next_row_index state1 = next_row_index state + position_count segs p"
      "segment_index state1 = fst p" "chunk_index state1 = Suc (snd p)"
      by blast
    have "remaining_positions segs (segment_index state1) (chunk_index state1) = ps"
      using remaining_positions_tail [OF Cons] s by simp
    with Suc [of state1] obtain state2 where
      "NextScanIndex_calls this state1 n =
         Inr (state2, expected_calls segs (next_row_index state + position_count segs p) ps n)"
      using s by auto
    then show ?thesis using s Cons by simp
  qed
qed

lemma expected_calls_nth:
  "expected_calls segs r ps n =
     map (\<lambda>k. if k < length ps
              then (r + sum_list (map (position_count segs) (take k ps)),
                    Some (snd (ps ! k), fst (ps ! k)))
              else (r + sum_list (map (position_count segs) ps), None)) [0..<n]"
proof (induction segs r ps n rule: expected_calls.induct)
  case (1 segs r ps)
  show ?case by simp
next
  case (2 segs r n)
  then show ?case by (simp add: map_replicate_const [symmetric] del: upt_Suc) (simp add: upt_conv_Cons map_Suc_upt [symmetric] del: upt_Suc)
next
  case (3 segs r p ps n)
  show ?case
    by (simp add: 3 upt_conv_Cons map_Suc_upt [symmetric] add.assoc del: upt_Suc)
qed


lemma scan_positions_snoc:
  "scan_positions (segs @ [s]) =
     scan_positions segs @ map (\<lambda>j. (length segs, j)) [0..<length (chunk_data s)]"
proof -
  have "concat (map (\<lambda>i. map (\<lambda>j. (i, j)) [0..<length (chunk_data ((segs @ [s]) ! i))])
                    [0..<length segs]) =
        concat (map (\<lambda>i. map (\<lambda>j. (i, j)) [0..<length (chunk_data (segs ! i))])
                    [0..<length segs])"
    by (rule arg_cong [where f = concat], rule map_cong) (simp_all add: nth_append)
  then show ?thesis by (simp add: scan_positions_def)
qed

lemma set_scan_positions:
  "(i, j) \<in> set (scan_positions segs) \<longleftrightarrow> i < length segs \<and> j < length (chunk_data (segs ! i))"
  by (force simp: scan_positions_def)

definition lexicographic_less :: "idx_t \<times> idx_t \<Rightarrow> idx_t \<times> idx_t \<Rightarrow> bool" where
  "lexicographic_less p q = (fst p < fst q \<or> (fst p = fst q \<and> snd p < snd q))"

lemma sorted_scan_positions: "sorted_wrt lexicographic_less (scan_positions segs)"
proof (induction segs rule: rev_induct)
  case Nil
  show ?case by (simp add: scan_positions_def)
next
  case (snoc s segs)
  have "sorted_wrt lexicographic_less (map (\<lambda>j. (length segs, j)) [0..<length (chunk_data s)])"
    by (simp add: sorted_wrt_map lexicographic_less_def sorted_wrt_upt)
  moreover have "lexicographic_less p q"
    if "p \<in> set (scan_positions segs)"
      and "q \<in> set (map (\<lambda>j. (length segs, j)) [0..<length (chunk_data s)])" for p q
    using that set_scan_positions [of "fst p" "snd p" segs]
    by (auto simp: lexicographic_less_def)
  ultimately show ?case
    using snoc by (simp add: scan_positions_snoc sorted_wrt_append)
qed

lemma distinct_scan_positions: "distinct (scan_positions segs)"
proof -
  have "irreflp lexicographic_less" "transp lexicographic_less"
    by (auto simp: irreflp_def transp_def lexicographic_less_def)
  then show ?thesis
    using sorted_scan_positions [of segs]
    by (metis distinct_conv_nth irreflpD sorted_wrt_iff_nth_less nat_neq_iff)
qed

lemma NextScanIndex_handles:
  assumes "segments this = map Some segs"
    and "NextScanIndex this state = Inr (state1, row, published)"
  shows "handles (current_chunk_state state1) =
           (if segment_index state1 = segment_index state
            then handles (current_chunk_state state) else [])"
proof (cases "remaining_positions segs (segment_index state) (chunk_index state)")
  case Nil
  from NextScanIndex_none [OF assms(1) Nil] show ?thesis using assms(2) by auto
next
  case (Cons p ps)
  from NextScanIndex_some [OF assms(1) Cons] show ?thesis using assms(2) by auto
qed

text \<open>
  C8: started from a state that \<open>InitializeScan\<close> produced, repeated calls of
  \<open>NextScanIndex\<close> publish every pair of segment index and chunk index exactly once, in
  lexicographic order; the row index published with a chunk is the sum of the counts of
  the chunks published before it; the calls return false exactly once all chunks have
  been published; and a call clears the pin cache exactly if it moves to another segment.
\<close>

theorem NextScanIndex_yields_every_chunk_once_in_order:
  assumes "segments this = map Some segs"
  shows "(\<exists>state1. NextScanIndex_calls this (InitializeScan this state properties_p) n =
                     Inr (state1, map (expected_call segs) [0..<n]))
         \<and> distinct (scan_positions segs)
         \<and> sorted_wrt lexicographic_less (scan_positions segs)
         \<and> (\<forall>i j. (i, j) \<in> set (scan_positions segs) \<longleftrightarrow>
                    i < length segs \<and> j < length (chunk_data (segs ! i)))
         \<and> (\<forall>st st1 row published.
               NextScanIndex this st = Inr (st1, row, published) \<longrightarrow>
               handles (current_chunk_state st1) =
                 (if segment_index st1 = segment_index st
                  then handles (current_chunk_state st) else []))"
proof -
  let ?init = "InitializeScan this state properties_p"
  have "remaining_positions segs (segment_index ?init) (chunk_index ?init) = scan_positions segs"
    and "next_row_index ?init = 0"
    by (simp_all add: InitializeScan_def InitializeScan_ids_def remaining_positions_start)
  with NextScanIndex_calls_spec [OF assms, of ?init n]
  have "\<exists>state1. NextScanIndex_calls this ?init n =
                   Inr (state1, expected_calls segs 0 (scan_positions segs) n)"
    by simp
  moreover have "expected_calls segs 0 (scan_positions segs) n = map (expected_call segs) [0..<n]"
    by (simp add: expected_calls_nth expected_call_def Let_def)
  ultimately show ?thesis
    using distinct_scan_positions sorted_scan_positions set_scan_positions
      NextScanIndex_handles [OF assms]
    by auto
qed

definition combined_example :: ColumnDataCollection where
  "combined_example =
     fst (snd (Combine True (int32_collection [10, 20]) (int32_collection [30, 40, 50])))"

theorem NextScanIndex_witness:
  "\<exists>state1. NextScanIndex_calls combined_example
              (InitializeScan combined_example empty_ColumnDataScanState ALLOW_ZERO_COPY) 3 =
            Inr (state1, [(0, Some (0, 0)), (2, Some (0, 1)), (5, None)])"
proof -
  define segs where "segs = map the (segments combined_example)"
  have s: "segments combined_example = map Some segs"
    unfolding segs_def combined_example_def
    by (simp add: example_defs model_defs loop_simps upt_rec)
  have p: "scan_positions segs = [(0, 0), (1, 0)]"
    unfolding segs_def combined_example_def
    by (simp add: scan_positions_def example_defs model_defs loop_simps upt_rec)
  have c: "position_count segs (0, 0) = 2" "position_count segs (Suc 0, 0) = 3"
    unfolding segs_def combined_example_def
    by (simp_all add: position_count_def example_defs model_defs loop_simps upt_rec)
  have e: "map (expected_call segs) [0..<3] = [(0, Some (0, 0)), (2, Some (0, 1)), (5, None)]"
    by (simp add: expected_call_def p c upt_rec)
  from NextScanIndex_yields_every_chunk_once_in_order [OF s, of empty_ColumnDataScanState ALLOW_ZERO_COPY 3]
  show ?thesis by (simp only: e)
qed


section \<open>Invariants of the append engine\<close>

text \<open>
  The copy functions never touch the chunk list, the count, the types or the allocator of
  the segment they write to.
\<close>

definition same_chunks :: "ColumnDataCollectionSegment \<Rightarrow> ColumnDataCollectionSegment \<Rightarrow> bool" where
  "same_chunks segment segment1 \<longleftrightarrow>
     segment_count segment1 = segment_count segment \<and> chunk_data segment1 = chunk_data segment
     \<and> segment_types segment1 = segment_types segment
     \<and> segment_allocator segment1 = segment_allocator segment"

lemma same_chunks_refl [simp]: "same_chunks s s"
  by (simp add: same_chunks_def)

lemma same_chunks_trans: "same_chunks a b \<Longrightarrow> same_chunks b c \<Longrightarrow> same_chunks a c"
  by (simp add: same_chunks_def)

lemma same_chunks_AllocateVector:
  "same_chunks segment (snd (fst (AllocateVector t prev segment)))"
  by (simp add: same_chunks_def AllocateVector_def AllocateVectorInternal_def Let_def
      split: option.splits)

definition body_result_segment ::
  "error \<times> ColumnDataCollectionSegment + 'a \<times> 'b \<times> 'c \<times> ColumnDataCollectionSegment \<Rightarrow>
     ColumnDataCollectionSegment" where
  "body_result_segment r = (case r of Inl (e, s) \<Rightarrow> s | Inr (i, off, rem, s) \<Rightarrow> s)"

lemma TemplatedColumnDataCopy_body_same_chunks:
  "same_chunks segment
     (body_result_segment
        (TemplatedColumnDataCopy_body SVS OP meta_data source_data source current_index offset
           remaining segment))"
proof (cases "GetVectorData segment current_index")
  case None
  then show ?thesis by (simp add: TemplatedColumnDataCopy_body_def body_result_segment_def)
next
  case (Some v)
  define a where "a = min (idx_sub SVS (vcount v)) remaining"
  obtain heap1 region1 where cr:
    "copy_rows OP meta_data source_data source offset (vcount v) a
       (heap segment, if vcount v = 0 then SetAllValid (block v) SVS else block v) =
     (heap1, region1)"
    by (metis surj_pair)
  define s1 where "s1 = segment\<lparr>heap := heap1, vector_data := (vector_data segment)
      [the current_index := v\<lparr>block := region1, vcount := vcount v + a\<rparr>]\<rparr>"
  have s1: "same_chunks segment s1" by (simp add: s1_def same_chunks_def)
  have s2: "same_chunks segment (snd (fst (AllocateVector (GetType source) current_index s1)))"
    using s1 same_chunks_AllocateVector same_chunks_trans by blast
  have body: "TemplatedColumnDataCopy_body SVS OP meta_data source_data source current_index
                 offset remaining segment =
     (if 0 < remaining - a then
        (case (if next_data v = None
               then fst (AllocateVector (GetType source) current_index s1) else (None, s1)) of
           (Some e, s2) \<Rightarrow> Inl (e, s2)
         | (None, s2) \<Rightarrow>
             (case GetVectorData s2 current_index of
                None \<Rightarrow> Inl (UndefinedBehavior, s2)
              | Some w \<Rightarrow>
                  (case D_ASSERT (next_data w \<noteq> None) of
                     Some e \<Rightarrow> Inl (e, s2)
                   | None \<Rightarrow> Inr (next_data w, offset + a, remaining - a, s2))))
      else Inr (current_index, offset + a, remaining - a, s1))"
    unfolding TemplatedColumnDataCopy_body_def
    by (simp add: Some Let_def a_def [symmetric] cr s1_def)
  show ?thesis
  proof (cases "0 < remaining - a")
    case False
    then show ?thesis using s1 by (simp add: body body_result_segment_def)
  next
    case True
    show ?thesis
    proof (cases "next_data v")
      case None
      obtain e2 s2 where al: "fst (AllocateVector (GetType source) current_index s1) = (e2, s2)"
        by (metis surj_pair)
      then have "same_chunks segment s2" using s2 by simp
      then show ?thesis
        using True None al
        by (simp add: body body_result_segment_def split: option.splits)
    next
      case (Some n)
      then show ?thesis
        using True s1 by (simp add: body body_result_segment_def split: option.splits)
    qed
  qed
qed


lemma TemplatedColumnDataCopy_loop_rule:
  assumes run: "TemplatedColumnDataCopy_loop SVS OP meta_data source_data source current_index
                  offset remaining segment = Some r"
    and init: "I current_index offset remaining segment"
    and step: "\<And>i off rem s i1 off1 rem1 s1.
                 I i off rem s \<Longrightarrow> 0 < rem \<Longrightarrow>
                 TemplatedColumnDataCopy_body SVS OP meta_data source_data source i off rem s =
                   Inr (i1, off1, rem1, s1) \<Longrightarrow> I i1 off1 rem1 s1"
    and err: "\<And>i off rem s e s1.
                I i off rem s \<Longrightarrow> 0 < rem \<Longrightarrow>
                TemplatedColumnDataCopy_body SVS OP meta_data source_data source i off rem s =
                  Inl (e, s1) \<Longrightarrow> Q (Some e, s1)"
    and fin: "\<And>i off s. I i off 0 s \<Longrightarrow> Q (None, s)"
  shows "Q r"
proof -
  have "SVS = SVS \<longrightarrow> OP = OP \<longrightarrow> meta_data = meta_data \<longrightarrow> source_data = source_data \<longrightarrow>
        source = source \<longrightarrow> I current_index offset remaining segment \<longrightarrow> Q r"
  proof (rule TemplatedColumnDataCopy_loop.raw_induct
      [where P = "\<lambda>a b c d e i off rem s r. a = SVS \<longrightarrow> b = OP \<longrightarrow> c = meta_data \<longrightarrow>
                    d = source_data \<longrightarrow> e = source \<longrightarrow> I i off rem s \<longrightarrow> Q r", OF _ run],
      goal_cases)
    case (1 loop a b c d e i off rem s r)
    show ?case
    proof (intro impI)
      assume eqs: "a = SVS" "b = OP" "c = meta_data" "d = source_data" "e = source"
        and inv: "I i off rem s"
      show "Q r"
      proof (cases "0 < rem")
        case False
        then show ?thesis using 1(2) inv fin by auto
      next
        case True
        show ?thesis
        proof (cases "TemplatedColumnDataCopy_body SVS OP meta_data source_data source i off rem s")
          case (Inl x)
          then show ?thesis
            using 1(2) True eqs err [OF inv True, of "fst x" "snd x"] by (auto split: prod.splits)
        next
          case (Inr y)
          obtain i1 off1 rem1 s1 where y: "y = (i1, off1, rem1, s1)" by (cases y) auto
          have "I i1 off1 rem1 s1" using step [OF inv True] Inr y by simp
          moreover have "loop a b c d e i1 off1 rem1 s1 = Some r"
            using 1(2) True eqs Inr y by simp
          ultimately show ?thesis using 1(1) eqs by blast
        qed
      qed
    qed
  qed
  with init show ?thesis by simp
qed

lemma TemplatedColumnDataCopy_loop_same_chunks:
  assumes "TemplatedColumnDataCopy_loop SVS OP meta_data source_data source current_index offset
             remaining segment = Some r"
  shows "same_chunks segment (snd r)"
proof (rule TemplatedColumnDataCopy_loop_rule
    [where I = "\<lambda>i off rem s. same_chunks segment s" and Q = "\<lambda>r. same_chunks segment (snd r)",
     OF assms], goal_cases)
  case 1
  show ?case by simp
next
  case (2 i off rem s i1 off1 rem1 s1)
  then show ?case
    using TemplatedColumnDataCopy_body_same_chunks
            [of s SVS OP meta_data source_data source i off rem]
    by (auto simp: body_result_segment_def intro: same_chunks_trans)
next
  case (3 i off rem s e s1)
  then show ?case
    using TemplatedColumnDataCopy_body_same_chunks
            [of s SVS OP meta_data source_data source i off rem]
    by (auto simp: body_result_segment_def intro: same_chunks_trans)
next
  case (4 i off s)
  then show ?case by simp
qed


lemma TemplatedColumnDataCopy_same_chunks:
  assumes "TemplatedColumnDataCopy SVS OP meta_data source_data source offset n segment = Some r"
  shows "same_chunks segment (snd r)"
  using assms TemplatedColumnDataCopy_loop_same_chunks by (simp add: TemplatedColumnDataCopy_def)

lemma ColumnDataCopy_list_child_same_chunks:
  "(ColumnDataCopy_list_child meta_data source segment = Inl (e, segment1) \<longrightarrow>
      same_chunks segment segment1)
   \<and> (ColumnDataCopy_list_child meta_data source segment = Inr (v, segment1) \<longrightarrow>
        same_chunks segment segment1)"
  by (auto simp: ColumnDataCopy_list_child_def Let_def same_chunks_def AllocateVector_def
      AllocateVectorInternal_def AddChildIndex_def set_child_index_def
      split: list.splits option.splits if_splits)

definition operation_of :: "column_data_copy_function_t \<Rightarrow> value_copy" where
  "operation_of fp =
     (case fp of
        ColumnDataCopy T_string_t \<Rightarrow> StringValueCopy
      | ColumnDataCopy T_list_entry_t \<Rightarrow> ListValueCopy
      | ColumnDataCopy _ \<Rightarrow> StandardValueCopy
      | ColumnDataCopyStruct \<Rightarrow> StructValueCopy)"

abbreviation meta_data_of ::
  "column_data_copy_function_t \<Rightarrow> ColumnDataCopyFunction list \<Rightarrow> VectorDataIndex \<Rightarrow> ColumnDataMetaData"
  where
  "meta_data_of fp child_fs index \<equiv>
     \<lparr>copy_function = ColumnDataCopyFunction fp child_fs, vector_data_index = index,
      child_list_size = INVALID_INDEX\<rparr>"

lemma call_copy_function_scalar:
  assumes "operation_of fp = StandardValueCopy \<or> operation_of fp = StringValueCopy"
  shows "call_copy_function SVS (ColumnDataCopyFunction fp child_fs) index source_data source
           offset copy_count segment =
         TemplatedColumnDataCopy SVS (operation_of fp) (meta_data_of fp child_fs index)
           source_data source offset copy_count segment"
proof (cases fp)
  case ColumnDataCopyStruct
  then show ?thesis using assms by (simp add: operation_of_def)
next
  case (ColumnDataCopy T)
  then show ?thesis
    using assms by (cases T) (simp_all add: operation_of_def call_copy_function.simps Let_def)
qed

lemma operation_of_list: "operation_of fp = ListValueCopy \<longleftrightarrow> fp = ColumnDataCopy T_list_entry_t"
  by (cases fp) (auto simp: operation_of_def split: value_type.splits)

lemma operation_of_struct: "operation_of fp = StructValueCopy \<longleftrightarrow> fp = ColumnDataCopyStruct"
  by (cases fp) (auto simp: operation_of_def split: value_type.splits)

abbreviation list_fp :: column_data_copy_function_t where
  "list_fp \<equiv> ColumnDataCopy T_list_entry_t"

lemma call_copy_function_list:
  "call_copy_function SVS (ColumnDataCopyFunction list_fp child_fs) index source_data source
           offset copy_count segment =
     (case ColumnDataCopy_list_child (meta_data_of list_fp child_fs index) source segment of
        Inl (e, segment1) \<Rightarrow> Some (Some e, segment1)
      | Inr (child_vector, segment1) \<Rightarrow>
          (case child_fs of
             [] \<Rightarrow> Some (Some UndefinedBehavior, segment1)
           | child_function # _ \<Rightarrow>
               (case ColumnDataCopy_list_size (meta_data_of list_fp child_fs index) segment1 of
                  None \<Rightarrow> None
                | Some (Inl e) \<Rightarrow> Some (Some e, segment1)
                | Some (Inr (child_idx, current_list_size)) \<Rightarrow>
                    (case call_copy_function SVS child_function child_idx
                            (ToUnifiedFormat child_vector (GetListSize source))
                            child_vector 0 (GetListSize source) segment1 of
                       None \<Rightarrow> None
                     | Some (Some e, segment2) \<Rightarrow> Some (Some e, segment2)
                     | Some (None, segment2) \<Rightarrow>
                         TemplatedColumnDataCopy SVS ListValueCopy
                           ((meta_data_of list_fp child_fs index)
                              \<lparr>child_list_size := current_list_size\<rparr>)
                           source_data source offset copy_count segment2))))"
  by (simp add: call_copy_function.simps Let_def)

lemma call_copy_function_struct:
  "call_copy_function SVS (ColumnDataCopyFunction ColumnDataCopyStruct child_fs) index
           source_data source offset copy_count segment =
     (case TemplatedColumnDataCopy SVS StructValueCopy
             (meta_data_of ColumnDataCopyStruct child_fs index)
             source_data source offset copy_count segment of
        None \<Rightarrow> None
      | Some (Some e, segment1) \<Rightarrow> Some (Some e, segment1)
      | Some (None, segment1) \<Rightarrow>
          (case ColumnDataCopyStruct_child_types
                  (meta_data_of ColumnDataCopyStruct child_fs index) source segment1 of
             Inl e \<Rightarrow> Some (Some e, segment1)
           | Inr n \<Rightarrow>
               ColumnDataCopyStruct_children SVS child_fs 0 n index
                 (GetEntries source) offset copy_count segment1))"
  by (simp add: call_copy_function.simps Let_def)

lemma operation_of_cases:
  obtains (scalar) "operation_of fp = StandardValueCopy \<or> operation_of fp = StringValueCopy"
    | (list) "fp = list_fp" | (struct) "fp = ColumnDataCopyStruct"
  using operation_of_list operation_of_struct by (cases "operation_of fp") auto

lemma copy_function_induct [case_names scalar list struct children]:
  assumes scalar: "\<And>SVS fp fs index sd src off n seg.
      operation_of fp = StandardValueCopy \<or> operation_of fp = StringValueCopy \<Longrightarrow>
      P SVS (ColumnDataCopyFunction fp fs) index sd src off n seg"
    and list: "\<And>SVS fs index sd src off n seg.
      (\<And>cv s1 cf rest ci ls.
          ColumnDataCopy_list_child (meta_data_of list_fp fs index) src seg = Inr (cv, s1) \<Longrightarrow>
          fs = cf # rest \<Longrightarrow>
          ColumnDataCopy_list_size (meta_data_of list_fp fs index) s1 = Some (Inr (ci, ls)) \<Longrightarrow>
          P SVS cf ci (ToUnifiedFormat cv (GetListSize src)) cv 0 (GetListSize src) s1) \<Longrightarrow>
      P SVS (ColumnDataCopyFunction list_fp fs) index sd src off n seg"
    and struct: "\<And>SVS fs index sd src off n seg.
      (\<And>s1 m.
          TemplatedColumnDataCopy SVS StructValueCopy (meta_data_of ColumnDataCopyStruct fs index)
            sd src off n seg = Some (None, s1) \<Longrightarrow>
          ColumnDataCopyStruct_child_types (meta_data_of ColumnDataCopyStruct fs index) src s1 =
            Inr m \<Longrightarrow>
          Q SVS fs 0 m index (GetEntries src) off n s1) \<Longrightarrow>
      P SVS (ColumnDataCopyFunction ColumnDataCopyStruct fs) index sd src off n seg"
    and children: "\<And>SVS fs k m index vs off n seg.
      (\<And>cf rest ci cv.
          k < m \<Longrightarrow> fs = cf # rest \<Longrightarrow>
          ColumnDataCopyStruct_child index k vs seg = Inr (ci, cv) \<Longrightarrow>
          P SVS cf ci (ToUnifiedFormat cv n) cv off n seg) \<Longrightarrow>
      (\<And>cf rest ci cv s1.
          k < m \<Longrightarrow> fs = cf # rest \<Longrightarrow>
          ColumnDataCopyStruct_child index k vs seg = Inr (ci, cv) \<Longrightarrow>
          call_copy_function SVS cf ci (ToUnifiedFormat cv n) cv off n seg = Some (None, s1) \<Longrightarrow>
          Q SVS rest (Suc k) m index vs off n s1) \<Longrightarrow>
      Q SVS fs k m index vs off n seg"
  shows "P SVS f index sd src off n seg" and "Q SVS fs k m index vs off n seg"
proof (induction SVS f index sd src off n seg and SVS fs k m index vs off n seg
    rule: call_copy_function_ColumnDataCopyStruct_children.induct)
  case (1 SVS fp child_fs index source_data source offset copy_count segment)
  show ?case
  proof (cases fp rule: operation_of_cases)
    case scalar
    then show ?thesis by (rule assms(1))
  next
    case list
    show ?thesis
      unfolding list
      by (rule assms(2)) (rule 1(1) [OF refl list refl, unfolded list], simp_all)
  next
    case struct
    show ?thesis
      unfolding struct
      by (rule assms(3)) (rule 1(2) [OF refl struct, unfolded struct], simp_all)
  qed
next
  case (2 SVS fs child_idx n index child_vectors offset copy_count segment)
  show ?case
    by (rule assms(4)) (rule 2(1), simp_all, rule 2(2), simp_all)
qed

text \<open>
  A preorder on segments that every step of the copy engine respects is respected by a
  call of a copy function, whatever its outcome.
\<close>

lemma call_copy_function_preorder:
  assumes R_refl: "\<And>s. R s s"
    and R_trans: "\<And>a b c. R a b \<Longrightarrow> R b c \<Longrightarrow> R a c"
    and R_templated: "\<And>SVS OP meta_data sd src off n s r.
          TemplatedColumnDataCopy SVS OP meta_data sd src off n s = Some r \<Longrightarrow> R s (snd r)"
    and R_child_Inl: "\<And>meta_data src s e s1.
          ColumnDataCopy_list_child meta_data src s = Inl (e, s1) \<Longrightarrow> R s s1"
    and R_child_Inr: "\<And>meta_data src s v s1.
          ColumnDataCopy_list_child meta_data src s = Inr (v, s1) \<Longrightarrow> R s s1"
  shows "\<forall>r. call_copy_function SVS f index source_data source offset copy_count segment =
               Some r \<longrightarrow> R segment (snd r)"
    and "\<forall>r. ColumnDataCopyStruct_children SVS fs child_idx n index child_vectors offset
               copy_count segment = Some r \<longrightarrow> R segment (snd r)"
proof (induction SVS f index source_data source offset copy_count segment
    and SVS fs child_idx n index child_vectors offset copy_count segment
    rule: copy_function_induct)
  case (scalar SVS fp fs index sd src off n seg)
  then show ?case
    using R_templated by (simp add: call_copy_function_scalar)
next
  case (list SVS fs index sd src off n seg)
  show ?case
  proof (intro allI impI)
    fix r
    assume run: "call_copy_function SVS (ColumnDataCopyFunction list_fp fs) index sd src off n
                   seg = Some r"
    let ?m = "meta_data_of list_fp fs index"
    show "R seg (snd r)"
    proof (cases "ColumnDataCopy_list_child ?m src seg")
      case (Inl x)
      then show ?thesis
        using run R_child_Inl [of ?m src seg "fst x" "snd x"]
        by (auto simp: call_copy_function_list split: prod.splits)
    next
      case (Inr y)
      obtain cv s1 where y: "y = (cv, s1)" by (cases y) auto
      have s1: "R seg s1"
        using R_child_Inr [of ?m src seg cv s1] Inr y by simp
      note lc = Inr [unfolded y]
      show ?thesis
      proof (cases fs)
        case Nil
        then show ?thesis using run lc s1 by (auto simp: call_copy_function_list)
      next
        case (Cons cf rest)
        show ?thesis
        proof (cases "ColumnDataCopy_list_size ?m s1")
          case None
          then show ?thesis using run lc Cons by (auto simp: call_copy_function_list)
        next
          case (Some z)
          show ?thesis
          proof (cases z)
            case (Inl e)
            then show ?thesis using run lc Cons Some s1 by (auto simp: call_copy_function_list)
          next
            case (Inr w)
            obtain ci ls where w: "w = (ci, ls)" by (cases w) auto
            note sz = Some [unfolded Inr w]
            note IH = list [OF lc Cons sz]
            show ?thesis
            proof (cases "call_copy_function SVS cf ci (ToUnifiedFormat cv (GetListSize src))
                            cv 0 (GetListSize src) s1")
              case None
              then show ?thesis using run lc Cons sz by (auto simp: call_copy_function_list)
            next
              case (Some u)
              obtain e2 s2 where u: "u = (e2, s2)" by (cases u) auto
              have "R s1 s2" using IH Some u by auto
              with s1 have s2: "R seg s2" by (rule R_trans)
              show ?thesis
              proof (cases e2)
                case (Some e)
                then show ?thesis
                  using run lc Cons sz \<open>_ = Some u\<close> u s2 by (auto simp: call_copy_function_list)
              next
                case None
                then have "TemplatedColumnDataCopy SVS ListValueCopy (?m\<lparr>child_list_size := ls\<rparr>)
                             sd src off n s2 = Some r"
                  using run lc Cons sz \<open>_ = Some u\<close> u by (auto simp: call_copy_function_list)
                from R_templated [OF this] s2
                show ?thesis by (rule R_trans [rotated])
              qed
            qed
          qed
        qed
      qed
    qed
  qed
next
  case (struct SVS fs index sd src off n seg)
  show ?case
  proof (intro allI impI)
    fix r
    assume run: "call_copy_function SVS (ColumnDataCopyFunction ColumnDataCopyStruct fs) index sd
                   src off n seg = Some r"
    let ?m = "meta_data_of ColumnDataCopyStruct fs index"
    show "R seg (snd r)"
    proof (cases "TemplatedColumnDataCopy SVS StructValueCopy ?m sd src off n seg")
      case None
      then show ?thesis using run by (auto simp: call_copy_function_struct)
    next
      case (Some t)
      obtain e1 s1 where t: "t = (e1, s1)" by (cases t) auto
      note tc = Some [unfolded t]
      have s1: "R seg s1"
        using R_templated [OF tc] by simp
      show ?thesis
      proof (cases e1)
        case (Some e)
        then show ?thesis using run tc s1 by (auto simp: call_copy_function_struct)
      next
        case None
        show ?thesis
        proof (cases "ColumnDataCopyStruct_child_types ?m src s1")
          case (Inl e)
          then show ?thesis using run tc s1 None by (auto simp: call_copy_function_struct)
        next
          case (Inr m)
          have "ColumnDataCopyStruct_children SVS fs 0 m index (GetEntries src) off n s1 = Some r"
            using run tc None Inr by (auto simp: call_copy_function_struct)
          with struct [OF tc [unfolded None] Inr] have "R s1 (snd r)" by simp
          with s1 show ?thesis by (rule R_trans)
        qed
      qed
    qed
  qed
next
  case (children SVS fs k m index vs off n seg)
  show ?case
  proof (intro allI impI)
    fix r
    assume run: "ColumnDataCopyStruct_children SVS fs k m index vs off n seg = Some r"
    show "R seg (snd r)"
    proof (cases "k < m")
      case False
      then show ?thesis using run by (auto simp: ColumnDataCopyStruct_children.simps R_refl)
    next
      case True
      show ?thesis
      proof (cases fs)
        case Nil
        then show ?thesis using run True by (auto simp: ColumnDataCopyStruct_children.simps R_refl)
      next
        case (Cons cf rest)
        show ?thesis
        proof (cases "ColumnDataCopyStruct_child index k vs seg")
          case (Inl e)
          then show ?thesis
            using run True Cons by (auto simp: ColumnDataCopyStruct_children.simps R_refl)
        next
          case (Inr y)
          obtain ci cv where y: "y = (ci, cv)" by (cases y) auto
          note ch = Inr [unfolded y]
          show ?thesis
          proof (cases "call_copy_function SVS cf ci (ToUnifiedFormat cv n) cv off n seg")
            case None
            then show ?thesis
              using run True Cons ch by (auto simp: ColumnDataCopyStruct_children.simps R_refl)
          next
            case (Some u)
            obtain e2 s2 where u: "u = (e2, s2)" by (cases u) auto
            note cc = Some [unfolded u]
            have s2: "R seg s2"
              using children(1) [OF True Cons ch] cc by auto
            show ?thesis
            proof (cases e2)
              case (Some e)
              then show ?thesis
                using run True Cons ch cc s2 by (auto simp: ColumnDataCopyStruct_children.simps R_refl)
            next
              case None
              then have "ColumnDataCopyStruct_children SVS rest (Suc k) m index vs off n s2 = Some r"
                using run True Cons ch cc by (auto simp: ColumnDataCopyStruct_children.simps R_refl)
              with children(2) [OF True Cons ch cc [unfolded None]] have "R s2 (snd r)" by simp
              with s2 show ?thesis by (rule R_trans)
            qed
          qed
        qed
      qed
    qed
  qed
qed


lemma call_copy_function_same_chunks:
  assumes "call_copy_function SVS f index source_data source offset copy_count segment = Some r"
  shows "same_chunks segment (snd r)"
proof (rule call_copy_function_preorder(1) [where R = same_chunks, rule_format, OF _ _ _ _ _ assms])
  show "same_chunks s s" for s by simp
  show "same_chunks a b \<Longrightarrow> same_chunks b c \<Longrightarrow> same_chunks a c" for a b c
    by (rule same_chunks_trans)
  show "TemplatedColumnDataCopy SVS OP meta_data sd src off n s = Some r \<Longrightarrow> same_chunks s (snd r)"
    for SVS OP meta_data sd src off n s r
    by (rule TemplatedColumnDataCopy_same_chunks)
  show "ColumnDataCopy_list_child meta_data src s = Inl (e, s1) \<Longrightarrow> same_chunks s s1"
    for meta_data src s e s1
    using ColumnDataCopy_list_child_same_chunks by blast
  show "ColumnDataCopy_list_child meta_data src s = Inr (v, s1) \<Longrightarrow> same_chunks s s1"
    for meta_data src s v s1
    using ColumnDataCopy_list_child_same_chunks by blast
qed


lemma Append_columns_same_chunks:
  assumes "Append_columns SVS fs state input offset append_amount idxs segment = Some r"
  shows "same_chunks segment (snd r)"
  using assms
proof (induction idxs arbitrary: segment)
  case Nil
  then show ?case by auto
next
  case (Cons vector_idx rest)
  show ?case
  proof (cases "chunk_data segment")
    case Nil
    then show ?thesis using Cons.prems by auto
  next
    case (Cons c cs)
    note cd = Cons
    show ?thesis
    proof (cases "(nth_opt fs vector_idx,
                   nth_opt (chunk_vector_data (last (chunk_data segment))) vector_idx,
                   nth_opt (state_vector_data state) vector_idx,
                   nth_opt (data_of input) vector_idx)")
      case (fields a b c d)
      show ?thesis
      proof (cases "a = None \<or> b = None \<or> c = None \<or> d = None")
        case True
        then show ?thesis
          using Cons.prems cd fields by (auto split: option.splits)
      next
        case False
        then obtain f index source_data source where
          v: "a = Some f" "b = Some index" "c = Some source_data" "d = Some source"
          by auto
        show ?thesis
        proof (cases "call_copy_function SVS f index source_data source offset append_amount
                        segment")
          case None
          then show ?thesis using Cons.prems cd fields v by auto
        next
          case (Some u)
          obtain e1 s1 where u: "u = (e1, s1)" by (cases u) auto
          have s1: "same_chunks segment s1"
            using call_copy_function_same_chunks [OF Some] u by simp
          show ?thesis
          proof (cases e1)
            case (Some e)
            then show ?thesis
              using Cons.prems cd fields v \<open>_ = Some u\<close> u s1 by auto
          next
            case None
            then have "Append_columns SVS fs state input offset append_amount rest s1 = Some r"
              using Cons.prems cd fields v \<open>_ = Some u\<close> u by auto
            from Cons.IH [OF this] s1 show ?thesis by (rule same_chunks_trans [rotated])
          qed
        qed
      qed
    qed
  qed
qed

subsection \<open>Allocation of a chunk\<close>

definition grown_by_allocation ::
  "ColumnDataCollectionSegment \<Rightarrow> ColumnDataCollectionSegment \<Rightarrow> bool" where
  "grown_by_allocation segment segment1 \<longleftrightarrow>
     same_chunks segment segment1 \<and> heap segment1 = heap segment
     \<and> length (vector_data segment) \<le> length (vector_data segment1)
     \<and> length (child_indices segment) \<le> length (child_indices segment1)"

lemma grown_by_allocation_refl [simp]: "grown_by_allocation s s"
  by (simp add: grown_by_allocation_def)

lemma grown_by_allocation_trans:
  "grown_by_allocation a b \<Longrightarrow> grown_by_allocation b c \<Longrightarrow> grown_by_allocation a c"
  by (auto simp: grown_by_allocation_def intro: same_chunks_trans)

lemma AllocateRootVector_grown:
  "grown_by_allocation segment (fst (AllocateRootVector t segment))"
  "grown_by_allocation segment (AllocateRootVector_children kvs slot segment)"
proof (induction t segment and kvs slot segment rule: AllocateRootVector_AllocateRootVector_children.induct)
  case (1 p segment)
  show ?case
    by (simp add: grown_by_allocation_def same_chunks_def AllocateVectorInternal_def)
next
  case (2 child_type segment)
  obtain s1 index where a: "AllocateVectorInternal (LogicalList child_type) segment = (s1, index)"
    by (metis surj_pair)
  obtain s2 child where b: "AllocateRootVector child_type s1 = (s2, child)" by (metis surj_pair)
  have "grown_by_allocation segment s1"
    using a by (auto simp: grown_by_allocation_def same_chunks_def AllocateVectorInternal_def)
  moreover have "grown_by_allocation s1 s2" using 2 [OF a [symmetric] refl] b by simp
  moreover have "grown_by_allocation s2
      (set_child_index index (Some (length (child_indices s2)))
         (s2\<lparr>child_indices := child_indices s2 @ [Some child]\<rparr>))"
    by (simp add: grown_by_allocation_def same_chunks_def set_child_index_def)
  ultimately show ?case
    using a b by (auto simp: AddChildIndex_def intro: grown_by_allocation_trans)
next
  case (3 child_types segment)
  obtain s1 index where a: "AllocateVectorInternal (LogicalStruct child_types) segment = (s1, index)"
    by (metis surj_pair)
  let ?s2 = "s1\<lparr>child_indices := child_indices s1 @ replicate (length child_types) None\<rparr>"
  let ?s3 = "AllocateRootVector_children child_types (length (child_indices s1)) ?s2"
  have "grown_by_allocation segment s1"
    using a by (auto simp: grown_by_allocation_def same_chunks_def AllocateVectorInternal_def)
  moreover have "grown_by_allocation s1 ?s2"
    by (simp add: grown_by_allocation_def same_chunks_def)
  moreover have "grown_by_allocation ?s2 ?s3" using 3 [OF a [symmetric] refl refl refl] .
  moreover have "grown_by_allocation ?s3 (set_child_index index (Some (length (child_indices s1))) ?s3)"
    by (simp add: grown_by_allocation_def same_chunks_def set_child_index_def)
  ultimately show ?case
    using a by (auto simp: Let_def intro: grown_by_allocation_trans)
next
  case (4 slot segment)
  show ?case by simp
next
  case (5 kv kvs slot segment)
  obtain s1 child where a: "AllocateRootVector (snd kv) segment = (s1, child)" by (metis surj_pair)
  let ?s2 = "s1\<lparr>child_indices := (child_indices s1)[slot := Some child]\<rparr>"
  have "grown_by_allocation segment s1" using 5(1) a by simp
  moreover have "grown_by_allocation s1 ?s2"
    by (simp add: grown_by_allocation_def same_chunks_def)
  moreover have "grown_by_allocation ?s2 (AllocateRootVector_children kvs (Suc slot) ?s2)"
    using 5(2) [OF a [symmetric] refl refl] .
  ultimately show ?case
    using a by (auto intro: grown_by_allocation_trans)
qed

lemma AllocateNewChunk_vectors_grown:
  "grown_by_allocation segment (fst (AllocateNewChunk_vectors ts meta_data segment))
   \<and> chunk_count (snd (AllocateNewChunk_vectors ts meta_data segment)) = chunk_count meta_data
   \<and> length (chunk_vector_data (snd (AllocateNewChunk_vectors ts meta_data segment))) =
       length (chunk_vector_data meta_data) + length ts"
proof (induction ts arbitrary: meta_data segment)
  case Nil
  show ?case by simp
next
  case (Cons t ts)
  obtain s1 i where a: "AllocateRootVector t segment = (s1, i)" by (metis surj_pair)
  have "grown_by_allocation segment s1" using AllocateRootVector_grown(1) [of segment t] a by simp
  then show ?case
    using a Cons [of s1 "meta_data\<lparr>chunk_vector_data := chunk_vector_data meta_data @ [Some i]\<rparr>"]
    by (auto intro: grown_by_allocation_trans)
qed

lemma AllocateNewChunk_chunks:
  "segment_count (AllocateNewChunk segment) = segment_count segment
   \<and> segment_types (AllocateNewChunk segment) = segment_types segment
   \<and> segment_allocator (AllocateNewChunk segment) = segment_allocator segment
   \<and> heap (AllocateNewChunk segment) = heap segment
   \<and> (\<exists>c. chunk_data (AllocateNewChunk segment) = chunk_data segment @ [c] \<and> chunk_count c = 0
          \<and> length (chunk_vector_data c) = length (segment_types segment))"
proof -
  obtain s1 m where a: "AllocateNewChunk_vectors (segment_types segment)
      \<lparr>chunk_vector_data = [], chunk_count = 0\<rparr> segment = (s1, m)" by (metis surj_pair)
  from AllocateNewChunk_vectors_grown
         [of segment "segment_types segment" "\<lparr>chunk_vector_data = [], chunk_count = 0\<rparr>"]
  show ?thesis
    using a by (simp add: AllocateNewChunk_def grown_by_allocation_def same_chunks_def)
qed


subsection \<open>The driver loop\<close>

definition chunk_counts :: "ColumnDataCollectionSegment \<Rightarrow> idx_t list" where
  "chunk_counts segment = map chunk_count (chunk_data segment)"

lemma chunk_counts_add_chunk_count:
  assumes "chunk_data segment \<noteq> []"
  shows "chunk_counts (add_chunk_count a segment) =
           butlast (chunk_counts segment) @ [last (chunk_counts segment) + a]"
  using assms
  by (simp add: chunk_counts_def add_chunk_count_def set_last_def map_butlast last_map)

lemma add_chunk_count_fields:
  "segment_count (add_chunk_count a segment) = segment_count segment"
  "segment_types (add_chunk_count a segment) = segment_types segment"
  by (simp_all add: add_chunk_count_def)

text \<open>
  The effect of one iteration of the driver loop on the chunks, when it ends normally:
  the count of the current chunk grows by the append amount and a chunk without rows is
  added if rows remain.
\<close>

lemma Append_body_chunks:
  assumes "Append_body SVS fs n state input remaining segment = Some (Inr (remaining1, segment1))"
  shows "chunk_counts segment \<noteq> []
     \<and> remaining1 = remaining - min remaining (idx_sub SVS (last (chunk_counts segment)))
     \<and> chunk_counts segment1 =
         butlast (chunk_counts segment) @
         [last (chunk_counts segment) + min remaining (idx_sub SVS (last (chunk_counts segment)))] @
         (if remaining1 > 0 then [0] else [])
     \<and> segment_count segment1 = segment_count segment
     \<and> segment_types segment1 = segment_types segment"
proof -
  from assms have ne: "chunk_data segment \<noteq> []"
    by (auto simp: Append_body_def split: list.splits)
  define a where "a = min remaining (idx_sub SVS (chunk_count (last (chunk_data segment))))"
  have la: "last (chunk_counts segment) = chunk_count (last (chunk_data segment))"
    using ne by (simp add: chunk_counts_def last_map)
  have body: "Append_body SVS fs n state input remaining segment =
     (case (if a > 0 then
              (case Append_columns SVS fs state input (size_of input - remaining) a [0..<n]
                      segment of
                 None \<Rightarrow> None
               | Some (Some e, s1) \<Rightarrow> Some (Some e, s1)
               | Some (None, s1) \<Rightarrow> Some (None, add_chunk_count a s1))
            else Some (None, segment)) of
        None \<Rightarrow> None
      | Some (Some e, s1) \<Rightarrow> Some (Inl (e, s1))
      | Some (None, s1) \<Rightarrow>
          (if remaining - a > 0 then Some (Inr (remaining - a, AllocateNewChunk s1))
           else Some (Inr (remaining - a, s1))))"
    unfolding Append_body_def a_def Let_def list.case_eq_if using ne by simp
  obtain s1 where s1: "chunk_counts s1 = butlast (chunk_counts segment) @ [last (chunk_counts segment) + a]"
      "segment_count s1 = segment_count segment" "segment_types s1 = segment_types segment"
      "chunk_data s1 \<noteq> []"
      "segment1 = (if remaining - a > 0 then AllocateNewChunk s1 else s1)"
      "remaining1 = remaining - a"
  proof (cases "a > 0")
    case False
    then have "segment1 = (if remaining - a > 0 then AllocateNewChunk segment else segment)"
      "remaining1 = remaining - a"
      using assms by (auto simp: body split: if_splits)
    moreover have "chunk_counts segment = butlast (chunk_counts segment) @ [last (chunk_counts segment) + a]"
      using False ne by (simp add: chunk_counts_def)
    ultimately show ?thesis using that [of segment] ne by simp
  next
    case True
    then obtain s0 where
      c: "Append_columns SVS fs state input (size_of input - remaining) a [0..<n] segment =
            Some (None, s0)"
      and r: "segment1 = (if remaining - a > 0 then AllocateNewChunk (add_chunk_count a s0)
                          else add_chunk_count a s0)"
        "remaining1 = remaining - a"
      using assms
      by (auto simp: body split: if_splits option.splits prod.splits)
    have sc: "same_chunks segment s0" using Append_columns_same_chunks [OF c] by simp
    then have cd: "chunk_data s0 = chunk_data segment" by (simp add: same_chunks_def)
    have "chunk_counts (add_chunk_count a s0) =
            butlast (chunk_counts segment) @ [last (chunk_counts segment) + a]"
      using chunk_counts_add_chunk_count [of s0 a] cd ne by (simp add: chunk_counts_def)
    moreover have "chunk_data (add_chunk_count a s0) \<noteq> []"
      by (simp add: add_chunk_count_def set_last_def)
    ultimately show ?thesis
      using that [of "add_chunk_count a s0"] r sc
      by (simp add: add_chunk_count_fields same_chunks_def)
  qed
  have "chunk_counts (AllocateNewChunk s1) = chunk_counts s1 @ [0]"
    using AllocateNewChunk_chunks [of s1] by (auto simp: chunk_counts_def)
  then show ?thesis
    using s1 ne la AllocateNewChunk_chunks [of s1]
    by (auto simp: a_def chunk_counts_def)
qed

lemma Append_loop_rule:
  assumes run: "Append_loop SVS fs n state input remaining segment = Some r"
    and init: "I remaining segment"
    and step: "\<And>rem s rem1 s1.
                 I rem s \<Longrightarrow> 0 < rem \<Longrightarrow>
                 Append_body SVS fs n state input rem s = Some (Inr (rem1, s1)) \<Longrightarrow> I rem1 s1"
    and err: "\<And>rem s e s1.
                I rem s \<Longrightarrow> 0 < rem \<Longrightarrow>
                Append_body SVS fs n state input rem s = Some (Inl (e, s1)) \<Longrightarrow> Q (Some e, s1)"
    and fin: "\<And>s. I 0 s \<Longrightarrow> Q (None, s)"
  shows "Q r"
proof -
  have "SVS = SVS \<longrightarrow> fs = fs \<longrightarrow> n = n \<longrightarrow> state = state \<longrightarrow> input = input \<longrightarrow>
        I remaining segment \<longrightarrow> Q r"
  proof (rule Append_loop.raw_induct
      [where P = "\<lambda>a b c d e rem s r. a = SVS \<longrightarrow> b = fs \<longrightarrow> c = n \<longrightarrow> d = state \<longrightarrow>
                    e = input \<longrightarrow> I rem s \<longrightarrow> Q r", OF _ run],
      goal_cases)
    case (1 loop a b c d e rem s r)
    show ?case
    proof (intro impI)
      assume eqs: "a = SVS" "b = fs" "c = n" "d = state" "e = input" and inv: "I rem s"
      show "Q r"
      proof (cases "0 < rem")
        case False
        then show ?thesis using 1(2) inv fin by auto
      next
        case True
        show ?thesis
        proof (cases "Append_body SVS fs n state input rem s")
          case None
          then show ?thesis using 1(2) True eqs by simp
        next
          case (Some x)
          show ?thesis
          proof (cases x)
            case (Inl y)
            then show ?thesis
              using 1(2) True eqs Some err [OF inv True, of "fst y" "snd y"]
              by (auto split: prod.splits)
          next
            case (Inr y)
            obtain rem1 s1 where y: "y = (rem1, s1)" by (cases y) auto
            have "I rem1 s1" using step [OF inv True] Some Inr y by simp
            moreover have "loop a b c d e rem1 s1 = Some r"
              using 1(2) True eqs Some Inr y by simp
            ultimately show ?thesis using 1(1) eqs by blast
          qed
        qed
      qed
    qed
  qed
  with init show ?thesis by simp
qed

text \<open>
  What the driver loop does to the chunks and counts of the segment when it ends
  normally.
\<close>

lemma Append_loop_chunks:
  assumes run: "Append_loop SVS fs n state input remaining segment = Some (None, segment1)"
    and ne: "chunk_data segment \<noteq> []"
    and le: "\<forall>c \<in> set (chunk_counts segment). c \<le> SVS"
  shows "segment_count segment1 = segment_count segment
     \<and> segment_types segment1 = segment_types segment
     \<and> sum_list (chunk_counts segment1) = sum_list (chunk_counts segment) + remaining
     \<and> (\<forall>c \<in> set (chunk_counts segment1). c \<le> SVS)
     \<and> length (chunk_counts segment) \<le> length (chunk_counts segment1)
     \<and> butlast (chunk_counts segment) = take (length (chunk_counts segment) - 1) (chunk_counts segment1)"
proof -
  define I where "I = (\<lambda>rem s. segment_count s = segment_count segment
     \<and> segment_types s = segment_types segment
     \<and> chunk_counts s \<noteq> []
     \<and> sum_list (chunk_counts s) + rem = sum_list (chunk_counts segment) + remaining
     \<and> (\<forall>c \<in> set (chunk_counts s). c \<le> SVS)
     \<and> length (chunk_counts segment) \<le> length (chunk_counts s)
     \<and> butlast (chunk_counts segment) = take (length (chunk_counts segment) - 1) (chunk_counts s))"
  have "fst (None :: error option, segment1) = None \<longrightarrow> I 0 (snd (None :: error option, segment1))"
  proof (rule Append_loop_rule
      [where I = I and Q = "\<lambda>r. fst r = None \<longrightarrow> I 0 (snd r)", OF run], goal_cases)
    case 1
    show ?case using ne le by (simp add: I_def chunk_counts_def butlast_conv_take)
  next
    case (2 rem s rem1 s1)
    let ?cs = "chunk_counts s"
    let ?a = "min rem (idx_sub SVS (last ?cs))"
    from Append_body_chunks [OF 2(3)] have
      b: "?cs \<noteq> []" "rem1 = rem - ?a"
        "chunk_counts s1 = butlast ?cs @ [last ?cs + ?a] @ (if rem1 > 0 then [0] else [])"
        "segment_count s1 = segment_count s" "segment_types s1 = segment_types s"
      by simp_all
    have inv: "segment_count s = segment_count segment" "segment_types s = segment_types segment"
      "sum_list ?cs + rem = sum_list (chunk_counts segment) + remaining"
      "\<forall>c \<in> set ?cs. c \<le> SVS" "length (chunk_counts segment) \<le> length ?cs"
      "butlast (chunk_counts segment) = take (length (chunk_counts segment) - 1) ?cs"
      using 2(1) by (simp_all add: I_def)
    have last_le: "last ?cs \<le> SVS" using inv(4) b(1) by simp
    then have a_le: "last ?cs + ?a \<le> SVS" by (simp add: idx_sub_def)
    have split: "?cs = butlast ?cs @ [last ?cs]" using b(1) by simp
    have sum: "sum_list ?cs = sum_list (butlast ?cs) + last ?cs"
      by (subst split) simp
    have "sum_list (chunk_counts s1) + rem1 = sum_list ?cs + rem"
      using b(2,3) sum by simp
    moreover have "\<forall>c \<in> set (chunk_counts s1). c \<le> SVS"
      using b(3) a_le inv(4) by (auto dest: in_set_butlastD)
    moreover have "length ?cs \<le> length (chunk_counts s1)"
      using b(3) b(1) by simp
    moreover have "take (length (chunk_counts segment) - 1) (chunk_counts s1) =
                   take (length (chunk_counts segment) - 1) ?cs"
    proof -
      have "length (chunk_counts segment) - 1 \<le> length (butlast ?cs)"
        using inv(5) by simp
      then have "take (length (chunk_counts segment) - 1) (butlast ?cs @ xs) =
                 take (length (chunk_counts segment) - 1) (butlast ?cs)" for xs
        by simp
      from this [of "[last ?cs + ?a] @ (if rem1 > 0 then [0] else [])"] this [of "[last ?cs]"]
      show ?thesis using b(3) split by metis
    qed
    ultimately show ?case
      using b inv by (simp add: I_def)
  next
    case (3 rem s e s1)
    show ?case by simp
  next
    case (4 s)
    then show ?case by simp
  qed
  then show ?thesis by (simp add: I_def)
qed


subsection \<open>A copy that fits into the current descriptor\<close>

lemma TemplatedColumnDataCopy_body_Some:
  assumes "GetVectorData segment current_index = Some v"
    and "copy_rows OP meta_data source_data source offset (vcount v)
           (min (idx_sub SVS (vcount v)) remaining)
           (heap segment, if vcount v = 0 then SetAllValid (block v) SVS else block v) =
         (heap1, region1)"
  shows "TemplatedColumnDataCopy_body SVS OP meta_data source_data source current_index offset
           remaining segment =
     (let a = min (idx_sub SVS (vcount v)) remaining;
          s1 = segment\<lparr>heap := heap1, vector_data := (vector_data segment)
                 [the current_index := v\<lparr>block := region1, vcount := vcount v + a\<rparr>]\<rparr>
      in if 0 < remaining - a then
           (case (if next_data v = None
                  then fst (AllocateVector (GetType source) current_index s1) else (None, s1)) of
              (Some e, s2) \<Rightarrow> Inl (e, s2)
            | (None, s2) \<Rightarrow>
                (case GetVectorData s2 current_index of
                   None \<Rightarrow> Inl (UndefinedBehavior, s2)
                 | Some w \<Rightarrow>
                     (case D_ASSERT (next_data w \<noteq> None) of
                        Some e \<Rightarrow> Inl (e, s2)
                      | None \<Rightarrow> Inr (next_data w, offset + a, remaining - a, s2))))
         else Inr (current_index, offset + a, remaining - a, s1))"
  unfolding TemplatedColumnDataCopy_body_def
  by (simp add: assms Let_def)

lemma TemplatedColumnDataCopy_loop_fits:
  assumes v: "GetVectorData segment current_index = Some v"
    and fits: "vcount v + n \<le> SVS" and n: "0 < n"
  shows "TemplatedColumnDataCopy_loop SVS OP meta_data source_data source current_index offset n
           segment =
     Some (None,
       segment\<lparr>heap := fst (copy_rows OP meta_data source_data source offset (vcount v) n
                    (heap segment, if vcount v = 0 then SetAllValid (block v) SVS else block v)),
               vector_data := (vector_data segment)
                 [the current_index :=
                    v\<lparr>block := snd (copy_rows OP meta_data source_data source offset (vcount v) n
                         (heap segment,
                          if vcount v = 0 then SetAllValid (block v) SVS else block v)),
                      vcount := vcount v + n\<rparr>]\<rparr>)"
proof -
  have a: "min (idx_sub SVS (vcount v)) n = n"
    using fits by (simp add: idx_sub_def)
  obtain heap1 region1 where cr:
    "copy_rows OP meta_data source_data source offset (vcount v) n
       (heap segment, if vcount v = 0 then SetAllValid (block v) SVS else block v) =
     (heap1, region1)"
    by (metis surj_pair)
  have "TemplatedColumnDataCopy_body SVS OP meta_data source_data source
          current_index offset n segment =
        Inr (current_index, offset + n, 0,
             segment\<lparr>heap := heap1, vector_data := (vector_data segment)
               [the current_index := v\<lparr>block := region1, vcount := vcount v + n\<rparr>]\<rparr>)"
    using TemplatedColumnDataCopy_body_Some [OF v, of OP meta_data source_data source offset SVS n
        heap1 region1] cr a
    by (simp add: Let_def)
  then show ?thesis
    using n cr
    by (simp add: TemplatedColumnDataCopy_loop.simps
        [of SVS OP meta_data source_data source current_index offset n]
        TemplatedColumnDataCopy_loop.simps [of SVS OP meta_data source_data source _ _ 0])
qed

definition int64_vector :: "(idx_t \<Rightarrow> int) \<Rightarrow> Vector" where
  "int64_vector f =
     Vector (LogicalPlain INT64)
       \<lparr>sel = (\<lambda>i. i), validity = None, data = (\<lambda>i. fixed_value (f i))\<rparr> (\<lambda>_. []) 0 []"

subsection \<open>The effect of an append on the counts\<close>

lemma fold_invariant:
  assumes "P s" and "\<And>x s. P s \<Longrightarrow> P (f x s)"
  shows "P (fold f xs s)"
  using assms(1)
proof (induction xs arbitrary: s)
  case Nil
  then show ?case by simp
next
  case (Cons x xs)
  show ?case using Cons.IH [of "f x s"] Cons.prems assms(2) by simp
qed

lemma Append_unify_size:
  assumes "Append_unify n input state = (e, (input1, state1))"
  shows "size_of input1 = size_of input"
proof -
  have "size_of (fst (snd (Append_unify n input state))) = size_of input"
    unfolding Append_unify_def
    by (rule fold_invariant [where P = "\<lambda>r. size_of (fst (snd r)) = size_of input"])
       (auto simp: Let_def split: option.splits prod.splits)
  then show ?thesis using assms by simp
qed

lemma Append_loop_chunks_all:
  assumes run: "Append_loop SVS fs n state input remaining segment = Some (None, segment1)"
    and le: "\<forall>c \<in> set (chunk_counts segment). c \<le> SVS"
  shows "segment_count segment1 = segment_count segment
     \<and> segment_types segment1 = segment_types segment
     \<and> sum_list (chunk_counts segment1) = sum_list (chunk_counts segment) + remaining
     \<and> (\<forall>c \<in> set (chunk_counts segment1). c \<le> SVS)"
proof (cases "remaining = 0")
  case True
  with run have "segment1 = segment" by (simp add: Append_loop.simps)
  with True le show ?thesis by simp
next
  case False
  have "chunk_data segment \<noteq> []"
  proof
    assume "chunk_data segment = []"
    then have "Append_body SVS fs n state input remaining segment =
        Some (Inl (UndefinedBehavior, segment))"
      by (simp add: Append_body_def)
    with False run show False
      by (simp add: Append_loop.simps [of SVS fs n state input remaining])
  qed
  from Append_loop_chunks [OF run this le] show ?thesis by simp
qed

text \<open>
  The counts of a collection are consistent if no segment pointer is null, the counts of
  the chunks of every segment add up to the count of the segment, no chunk holds more
  than \<open>STANDARD_VECTOR_SIZE\<close> rows, and the counts of the segments add up to the count
  of the collection.
\<close>

definition segment_consistent :: "idx_t \<Rightarrow> ColumnDataCollectionSegment option \<Rightarrow> bool" where
  "segment_consistent STANDARD_VECTOR_SIZE s =
     (case s of
        None \<Rightarrow> False
      | Some segment \<Rightarrow>
          sum_list (chunk_counts segment) = segment_count segment \<and>
          list_all (\<lambda>c. c \<le> STANDARD_VECTOR_SIZE) (chunk_counts segment))"

definition total_segment_count :: "ColumnDataCollectionSegment option list \<Rightarrow> idx_t" where
  "total_segment_count ss =
     sum_list (map (\<lambda>s. case s of None \<Rightarrow> 0 | Some segment \<Rightarrow> segment_count segment) ss)"

definition counts_consistent :: "idx_t \<Rightarrow> ColumnDataCollection \<Rightarrow> bool" where
  "counts_consistent STANDARD_VECTOR_SIZE this =
     (list_all (segment_consistent STANDARD_VECTOR_SIZE) (segments this) \<and>
      total_segment_count (segments this) = count this)"

lemma segment_consistent_AllocateNewChunk:
  assumes "segment_consistent SVS (Some segment)"
  shows "segment_consistent SVS (Some (AllocateNewChunk segment))"
proof -
  from AllocateNewChunk_chunks [of segment] obtain c where
    c: "chunk_data (AllocateNewChunk segment) = chunk_data segment @ [c]" "chunk_count c = 0"
    and sc: "segment_count (AllocateNewChunk segment) = segment_count segment"
    by blast
  show ?thesis using assms c sc
    by (simp add: segment_consistent_def chunk_counts_def)
qed

lemma total_segment_count_append:
  "total_segment_count (xs @ ys) = total_segment_count xs + total_segment_count ys"
  by (simp add: total_segment_count_def)

lemma total_segment_count_set_last:
  assumes "ss \<noteq> []" and "last ss = Some segment" and "segment_count segment1 = segment_count segment + n"
  shows "total_segment_count (set_last ss (Some segment1)) = total_segment_count ss + n"
proof -
  from assms(1) have "ss = butlast ss @ [last ss]" by simp
  then have "total_segment_count ss =
      total_segment_count (butlast ss) + total_segment_count [last ss]"
    by (metis total_segment_count_append)
  then show ?thesis using assms(2,3)
    by (simp add: set_last_def total_segment_count_append) (simp add: total_segment_count_def)
qed

lemma list_all_set_last:
  assumes "list_all P ss" and "P x"
  shows "list_all P (set_last ss x)"
  using assms by (auto simp: set_last_def list_all_iff dest: in_set_butlastD)

lemma list_all_last:
  assumes "list_all P ss" and "ss \<noteq> []"
  shows "P (last ss)"
  using assms by (simp add: list_all_iff)

lemma InitializeAppend_consistent:
  assumes run: "InitializeAppend this state = (None, (this1, state1))"
    and inv: "counts_consistent SVS this"
  shows "counts_consistent SVS this1 \<and> count this1 = count this \<and> segments this1 \<noteq> []
     \<and> types this1 = types this \<and> copy_functions this1 = copy_functions this"
proof -
  define this0 where "this0 = (if segments this = [] then CreateSegment this else this)"
  have ne0: "segments this0 \<noteq> []" by (simp add: this0_def CreateSegment_def)
  have inv0: "counts_consistent SVS this0"
    using inv
    by (auto simp: this0_def CreateSegment_def counts_consistent_def segment_consistent_def
        chunk_counts_def total_segment_count_def)
  have f0: "count this0 = count this" "types this0 = types this"
    "copy_functions this0 = copy_functions this"
    by (simp_all add: this0_def CreateSegment_def)
  from run obtain segment where
    l: "last (segments this0) = Some segment"
    and r: "this1 = this0\<lparr>segments := set_last (segments this0)
               (Some (if chunk_data segment = [] then AllocateNewChunk segment else segment))\<rparr>"
    by (auto simp: InitializeAppend_def this0_def Let_def D_ASSERT_def
        split: if_splits option.splits)
  from inv0 ne0 l have sc: "segment_consistent SVS (Some segment)"
    using list_all_last [of "segment_consistent SVS" "segments this0"]
    by (simp add: counts_consistent_def)
  then have sc1: "segment_consistent SVS
      (Some (if chunk_data segment = [] then AllocateNewChunk segment else segment))"
    using segment_consistent_AllocateNewChunk by simp
  have cnt: "segment_count (if chunk_data segment = [] then AllocateNewChunk segment else segment)
      = segment_count segment + 0"
    using AllocateNewChunk_chunks [of segment] by simp
  have "counts_consistent SVS this1"
    using inv0 sc1 total_segment_count_set_last [OF ne0 l cnt]
    by (simp add: r counts_consistent_def list_all_set_last)
  then show ?thesis using f0 by (simp add: r set_last_def)
qed

lemma Append_loop_segment_count:
  assumes run: "Append_loop SVS fs n state input remaining segment = Some (None, segment1)"
  shows "segment_count segment1 = segment_count segment"
proof -
  have "fst (None :: error option, segment1) = None \<longrightarrow>
        segment_count (snd (None :: error option, segment1)) = segment_count segment"
  proof (rule Append_loop_rule
      [where I = "\<lambda>rem s. segment_count s = segment_count segment"
         and Q = "\<lambda>r. fst r = None \<longrightarrow> segment_count (snd r) = segment_count segment", OF run],
      goal_cases)
    case 1
    show ?case by simp
  next
    case (2 rem s rem1 s1)
    from Append_body_chunks [OF 2(3)] 2(1) show ?case by simp
  next
    case (3 rem s e s1)
    show ?case by simp
  next
    case (4 s)
    then show ?case by simp
  qed
  then show ?thesis by simp
qed

lemma Append_result:
  assumes run: "Append SVS this state input = Some (None, (this1, state1))"
  shows "\<exists>segment input1 st1 segment2.
      segments this \<noteq> [] \<and> last (segments this) = Some segment
    \<and> Append_unify (length (types this)) input state = (None, (input1, st1))
    \<and> Append_loop SVS (copy_functions this) (length (types this)) st1 input1
                 (size_of input1) segment = Some (None, segment2)
    \<and> this1 = this\<lparr>segments := set_last (segments this)
               (Some (segment2\<lparr>segment_count := segment_count segment2 + size_of input1\<rparr>)),
             count := count this + size_of input1\<rparr>"
proof -
  from run have fa: "\<not> finished_append this" and ty: "types this = GetTypes input"
    and ne: "segments this \<noteq> []"
    by (auto simp: Append_def D_ASSERT_def split: if_splits)
  from run fa ty ne obtain segment where l: "last (segments this) = Some segment"
    by (cases "last (segments this)") (auto simp: Append_def D_ASSERT_def)
  obtain e input1 st1 where
    u: "Append_unify (length (types this)) input state = (e, (input1, st1))"
    by (metis surj_pair)
  from run fa ty ne l u have e: "e = None"
    by (cases e) (auto simp: Append_def D_ASSERT_def)
  from run fa ty ne l u e obtain r where
    loop: "Append_loop SVS (copy_functions this) (length (types this)) st1 input1
                 (size_of input1) segment = Some r"
    by (cases "Append_loop SVS (copy_functions this) (length (types this)) st1 input1
                 (size_of input1) segment") (auto simp: Append_def D_ASSERT_def)
  obtain e2 segment2 where r: "r = (e2, segment2)" by (metis surj_pair)
  from run fa ty ne l u e loop r have e2: "e2 = None"
    by (cases e2) (auto simp: Append_def D_ASSERT_def)
  from run fa ty ne l u e loop r e2 have
    "this1 = this\<lparr>segments := set_last (segments this)
               (Some (segment2\<lparr>segment_count := segment_count segment2 + size_of input1\<rparr>)),
             count := count this + size_of input1\<rparr>"
    by (simp add: Append_def D_ASSERT_def)
  with ne l u e loop r e2 show ?thesis by blast
qed

lemma Append_effect:
  assumes run: "Append SVS this state input = Some (None, (this1, state1))"
  shows "\<exists>segment segment1.
       segments this \<noteq> [] \<and> last (segments this) = Some segment
     \<and> segments this1 = set_last (segments this) (Some segment1)
     \<and> count this1 = count this + size_of input
     \<and> segment_count segment1 = segment_count segment + size_of input
     \<and> types this1 = types this \<and> copy_functions this1 = copy_functions this
     \<and> (list_all (\<lambda>c. c \<le> SVS) (chunk_counts segment) \<longrightarrow>
          list_all (\<lambda>c. c \<le> SVS) (chunk_counts segment1)
        \<and> sum_list (chunk_counts segment1) = sum_list (chunk_counts segment) + size_of input)"
proof -
  from Append_result [OF run] obtain segment input1 st1 segment2 where
    ne: "segments this \<noteq> []" and l: "last (segments this) = Some segment"
    and u: "Append_unify (length (types this)) input state = (None, (input1, st1))"
    and loop: "Append_loop SVS (copy_functions this) (length (types this)) st1 input1
                 (size_of input1) segment = Some (None, segment2)"
    and r: "this1 = this\<lparr>segments := set_last (segments this)
               (Some (segment2\<lparr>segment_count := segment_count segment2 + size_of input1\<rparr>)),
             count := count this + size_of input1\<rparr>"
    by blast
  have sz: "size_of input1 = size_of input" using Append_unify_size [OF u] .
  have cs: "chunk_counts (segment2\<lparr>segment_count := k\<rparr>) = chunk_counts segment2" for k
    by (simp add: chunk_counts_def)
  note c0 = Append_loop_segment_count [OF loop]
  show ?thesis
    apply (rule exI [of _ segment])
    apply (rule exI [of _ "segment2\<lparr>segment_count := segment_count segment2 + size_of input1\<rparr>"])
    using ne l r sz c0 Append_loop_chunks_all [OF loop]
    by (simp add: cs list_all_iff)
qed

subsection \<open>Collections built by appends and combines\<close>

datatype history =
    Created "LogicalType list"
  | Appended history DataChunk
  | Combined history history

fun build :: "idx_t \<Rightarrow> bool \<Rightarrow> history \<Rightarrow> ColumnDataCollection option" where
  "build STANDARD_VECTOR_SIZE DEBUG (Created ts) =
     (case ColumnDataCollection_Allocator_types 0 ts of
        Inl e \<Rightarrow> None
      | Inr this \<Rightarrow> Some this)"
| "build STANDARD_VECTOR_SIZE DEBUG (Appended h input) =
     (case build STANDARD_VECTOR_SIZE DEBUG h of
        None \<Rightarrow> None
      | Some this \<Rightarrow>
          (case Append_chunk STANDARD_VECTOR_SIZE this input of
             Some (None, this1) \<Rightarrow> Some this1
           | _ \<Rightarrow> None))"
| "build STANDARD_VECTOR_SIZE DEBUG (Combined h other_h) =
     (case (build STANDARD_VECTOR_SIZE DEBUG h, build STANDARD_VECTOR_SIZE DEBUG other_h) of
        (Some this, Some other) \<Rightarrow>
          (case Combine DEBUG this other of
             (None, (this1, other1)) \<Rightarrow> Some this1
           | _ \<Rightarrow> None)
      | _ \<Rightarrow> None)"

fun appended_rows :: "history \<Rightarrow> nat" where
  "appended_rows (Created ts) = 0"
| "appended_rows (Appended h input) = appended_rows h + size_of input"
| "appended_rows (Combined h other_h) = appended_rows h + appended_rows other_h"

lemma Created_consistent:
  assumes "ColumnDataCollection_Allocator_types a ts = Inr this"
  shows "counts_consistent SVS this \<and> count this = 0 \<and> segments this = []"
  using assms
  by (auto simp: ColumnDataCollection_Allocator_types_def Initialize_def
      uninitialized_collection_def counts_consistent_def total_segment_count_def Let_def
      split: sum.splits option.splits)

lemma Append_consistent:
  assumes run: "Append SVS this state input = Some (None, (this1, state1))"
    and inv: "counts_consistent SVS this"
  shows "counts_consistent SVS this1 \<and> count this1 = count this + size_of input"
proof -
  from Append_effect [OF run] obtain segment segment1 where
    ne: "segments this \<noteq> []" and l: "last (segments this) = Some segment"
    and s1: "segments this1 = set_last (segments this) (Some segment1)"
    and c: "count this1 = count this + size_of input"
    and sc: "segment_count segment1 = segment_count segment + size_of input"
    and ch: "list_all (\<lambda>c. c \<le> SVS) (chunk_counts segment) \<longrightarrow>
          list_all (\<lambda>c. c \<le> SVS) (chunk_counts segment1)
        \<and> sum_list (chunk_counts segment1) = sum_list (chunk_counts segment) + size_of input"
    by blast
  from inv ne l have cons: "segment_consistent SVS (Some segment)"
    using list_all_last [of "segment_consistent SVS" "segments this"]
    by (simp add: counts_consistent_def)
  with ch sc have "segment_consistent SVS (Some segment1)"
    by (simp add: segment_consistent_def)
  with inv have "list_all (segment_consistent SVS) (segments this1)"
    by (simp add: s1 counts_consistent_def list_all_set_last)
  moreover have "total_segment_count (segments this1) = count this1"
    using total_segment_count_set_last [OF ne l sc] inv c
    by (simp add: s1 counts_consistent_def)
  ultimately show ?thesis using c by (simp add: counts_consistent_def)
qed

lemma Append_chunk_consistent:
  assumes run: "Append_chunk SVS this input = Some (None, this1)"
    and inv: "counts_consistent SVS this"
  shows "counts_consistent SVS this1 \<and> count this1 = count this + size_of input"
proof -
  obtain e0 this0 state0 where
    i: "InitializeAppend this \<lparr>state_vector_data = []\<rparr> = (e0, (this0, state0))"
    by (metis surj_pair)
  from run i have e0: "e0 = None" by (cases e0) (auto simp: Append_chunk_def)
  from run i e0 obtain state1 where
    a: "Append SVS this0 state0 input = Some (None, (this1, state1))"
    by (auto simp: Append_chunk_def split: option.splits)
  from InitializeAppend_consistent [OF i [unfolded e0] inv]
  have "counts_consistent SVS this0" "count this0 = count this" by simp_all
  with Append_consistent [OF a] show ?thesis by simp
qed

lemma Verify_segments_consistent:
  assumes "list_all (segment_consistent SVS) ss"
  shows "Verify_segments ss k = Inr (k + total_segment_count ss)"
  using assms
  by (induction ss k rule: Verify_segments.induct)
     (auto simp: segment_consistent_def segment_Verify_def D_ASSERT_def chunk_counts_def
        total_segment_count_def)

lemma Combine_consistent:
  assumes inv: "counts_consistent SVS this" and inv_other: "counts_consistent SVS other"
    and ty: "count other = 0 \<or> types this = types other"
  shows "\<exists>this1 other1. Combine DEBUG this other = (None, (this1, other1))
     \<and> counts_consistent SVS this1 \<and> count this1 = count this + count other"
proof (cases "count other = 0")
  case True
  with inv show ?thesis by (simp add: Combine_def)
next
  case False
  with ty have ty: "types this = types other" by simp
  let ?this1 = "this\<lparr>count := count this + count other,
                     segments := segments this @ segments other\<rparr>"
  have c: "counts_consistent SVS ?this1"
    using inv inv_other
    by (simp add: counts_consistent_def total_segment_count_append)
  then have "Verify DEBUG ?this1 = None"
    using Verify_segments_consistent [of SVS "segments ?this1" 0]
    by (simp add: Verify_def counts_consistent_def D_ASSERT_def)
  with False ty c show ?thesis by (simp add: Combine_def Let_def)
qed

lemma build_consistent:
  assumes "build SVS DEBUG h = Some this"
  shows "counts_consistent SVS this \<and> count this = appended_rows h"
  using assms
proof (induction h arbitrary: this)
  case (Created ts)
  then show ?case using Created_consistent [of 0 ts this SVS]
    by (auto split: sum.splits)
next
  case (Appended h input)
  from Appended.prems obtain this0 where
    b: "build SVS DEBUG h = Some this0" and a: "Append_chunk SVS this0 input = Some (None, this)"
    by (auto split: option.splits prod.splits)
  from Appended.IH [OF b] Append_chunk_consistent [OF a] show ?case by simp
next
  case (Combined h1 h2)
  from Combined.prems obtain a b other1 where
    a: "build SVS DEBUG h1 = Some a" and b: "build SVS DEBUG h2 = Some b"
    and c: "Combine DEBUG a b = (None, (this, other1))"
    by (auto split: option.splits prod.splits)
  note ia = Combined.IH(1) [OF a] and ib = Combined.IH(2) [OF b]
  show ?case
  proof (cases "count b = 0")
    case True
    with c ia ib show ?thesis by (simp add: Combine_def)
  next
    case False
    with c have ty: "types a = types b" by (auto simp: Combine_def split: if_splits)
    from Combine_consistent [of SVS a b DEBUG] ia ib ty c show ?thesis by auto
  qed
qed

definition chunks_bounded :: "idx_t \<Rightarrow> ColumnDataCollection \<Rightarrow> bool" where
  "chunks_bounded STANDARD_VECTOR_SIZE this =
     list_all (\<lambda>s. case s of
                      None \<Rightarrow> False
                    | Some segment \<Rightarrow>
                        list_all (\<lambda>c. c \<le> STANDARD_VECTOR_SIZE) (chunk_counts segment))
       (segments this)"

definition int64_chunk :: DataChunk where
  "int64_chunk = DataChunk [int64_vector (\<lambda>i. int i)] 1500"

definition int64_segment :: ColumnDataCollectionSegment where
  "int64_segment =
     AllocateNewChunk
       \<lparr>segment_allocator = Some (ColumnDataAllocator_of_Allocator 0),
        segment_types = [LogicalPlain INT64], segment_count = 0, chunk_data = [],
        vector_data = [], child_indices = [], heap = []\<rparr>"

lemma int64_new_collection:
  "ColumnDataCollection_Allocator_types 0 [LogicalPlain INT64] =
     Inr (new_collection [LogicalPlain INT64])"
  by (simp add: new_collection_def model_defs)

lemma int64_overflow:
  "\<exists>this. Append_chunk 1024 (new_collection [LogicalPlain INT64])
             (DataChunk [int64_vector f] 1500) = Some (None, this)
          \<and> ChunkCount this = Inr 2 \<and> Count this = 1500
          \<and> map (map_option chunk_counts) (segments this) = [Some [1024, 476]]"
  by (simp add: new_collection_def int64_vector_def model_defs Append_loop.simps
      call_copy_function_scalar operation_of_def TemplatedColumnDataCopy_loop_fits
      upt_rec chunk_counts_def del: copy_rows_def)

lemma int64_first_iteration:
  "\<exists>segment1. Append_body 1024 [ColumnDataCopyFunction (ColumnDataCopy T_int64_t) []] 1
       \<lparr>state_vector_data = [ToUnifiedFormat (int64_vector (\<lambda>i. int i)) 1500]\<rparr> int64_chunk 1500
       int64_segment = Some (Inr (476, segment1))
     \<and> chunk_counts int64_segment = [0]"
  by (simp add: int64_chunk_def int64_segment_def int64_vector_def model_defs
      call_copy_function_scalar operation_of_def TemplatedColumnDataCopy_loop_fits
      upt_rec chunk_counts_def del: copy_rows_def)


section \<open>Count consistency\<close>

text \<open>
  C4: the count of a collection is not always the number of rows appended to it or to
  the collections combined into it. \<open>Combine\<close> leaves the count of the other collection
  as it was, so a second \<open>a.Combine(b)\<close> adds the three rows of \<open>b\<close> to the count of \<open>a\<close>
  again: with the rows 10, 20 appended to \<open>a\<close> and 30, 40, 50 appended to \<open>b\<close>, five rows
  in all, the count of \<open>a\<close> is 8 after the two calls, and its segments hold 2 and 3 rows
  and a null pointer. When \<open>Verify\<close> is compiled in, the second call reads that null
  pointer after the count has been raised to 8.
\<close>

theorem repeated_combine_counts_rows_twice:
  "Count (int32_collection [10, 20]) = 2 \<and> Count (int32_collection [30, 40, 50]) = 3
   \<and> (case Combine False (int32_collection [10, 20]) (int32_collection [30, 40, 50]) of
        (e1, (a1, b1)) \<Rightarrow>
          (case Combine False a1 b1 of
             (e2, (a2, b2)) \<Rightarrow>
               (e1, e2, Count a2, map (map_option segment_count) (segments a2)))) =
       (None, None, 8, [Some 2, Some 3, None])
   \<and> (case Combine True (int32_collection [10, 20]) (int32_collection [30, 40, 50]) of
        (e1, (a1, b1)) \<Rightarrow>
          (case Combine True a1 b1 of
             (e2, (a2, b2)) \<Rightarrow> (e1, e2, Count a2))) =
       (None, Some UndefinedBehavior, 8)"
  by (simp add: example_defs model_defs loop_simps upt_rec)

section \<open>Chunks hold at most a vector of rows\<close>

text \<open>
  C5: an iteration of the driver loop of \<open>Append\<close> that returns normally, entered with
  no chunk above \<open>STANDARD_VECTOR_SIZE\<close>, adds
  \<open>append_amount = min remaining (STANDARD_VECTOR_SIZE - count)\<close> rows to the current chunk,
  lowers the remaining rows by that amount, and allocates a new, empty chunk in the same
  segment exactly when rows remain, which is when the current chunk has been filled up.
  Hence no chunk of a collection built by appends and combines holds more than
  \<open>STANDARD_VECTOR_SIZE\<close> rows; and with \<open>STANDARD_VECTOR_SIZE = 1024\<close> the append of
  1500 rows of 64-bit integers to an empty collection returns with two chunks, of 1024
  and of 476 rows.
\<close>

theorem append_fills_chunks_up_to_the_vector_size:
  "(Append_body SVS fs n state input remaining segment = Some (Inr (remaining1, segment1))
     \<and> list_all (\<lambda>c. c \<le> SVS) (chunk_counts segment) \<longrightarrow>
       chunk_counts segment \<noteq> [] \<and>
       (let append_amount = min remaining (SVS - last (chunk_counts segment))
        in remaining1 = remaining - append_amount
         \<and> chunk_counts segment1 =
             butlast (chunk_counts segment) @ [last (chunk_counts segment) + append_amount] @
             (if remaining1 > 0 then [0] else [])
         \<and> (remaining1 > 0 \<longrightarrow> last (chunk_counts segment) + append_amount = SVS)))
   \<and> (build SVS DEBUG h = Some this \<longrightarrow> chunks_bounded SVS this)
   \<and> (\<exists>this. Append_chunk 1024 (new_collection [LogicalPlain INT64])
                (DataChunk [int64_vector f] 1500) = Some (None, this)
          \<and> ChunkCount this = Inr 2 \<and> Count this = 1500
          \<and> map (map_option chunk_counts) (segments this) = [Some [1024, 476]])"
proof (intro conjI impI)
  assume a: "Append_body SVS fs n state input remaining segment = Some (Inr (remaining1, segment1))
     \<and> list_all (\<lambda>c. c \<le> SVS) (chunk_counts segment)"
  note b = Append_body_chunks [OF a [THEN conjunct1]]
  from b show "chunk_counts segment \<noteq> []" by simp
  with a have le: "last (chunk_counts segment) \<le> SVS"
    by (simp add: list_all_iff)
  then have s: "idx_sub SVS (last (chunk_counts segment)) = SVS - last (chunk_counts segment)"
    by (simp add: idx_sub_def)
  from b le show "let append_amount = min remaining (SVS - last (chunk_counts segment))
        in remaining1 = remaining - append_amount
         \<and> chunk_counts segment1 =
             butlast (chunk_counts segment) @ [last (chunk_counts segment) + append_amount] @
             (if remaining1 > 0 then [0] else [])
         \<and> (remaining1 > 0 \<longrightarrow> last (chunk_counts segment) + append_amount = SVS)"
    unfolding s Let_def by auto
next
  assume "build SVS DEBUG h = Some this"
  from build_consistent [OF this] show "chunks_bounded SVS this"
    by (auto simp: counts_consistent_def chunks_bounded_def segment_consistent_def list_all_iff
        split: option.splits)
next
  show "\<exists>this. Append_chunk 1024 (new_collection [LogicalPlain INT64])
                (DataChunk [int64_vector f] 1500) = Some (None, this)
          \<and> ChunkCount this = Inr 2 \<and> Count this = 1500
          \<and> map (map_option chunk_counts) (segments this) = [Some [1024, 476]]"
    by (rule int64_overflow)
qed

theorem append_fills_chunks_witness:
  "\<exists>segment1 this.
      Append_body 1024 [ColumnDataCopyFunction (ColumnDataCopy T_int64_t) []] 1
        \<lparr>state_vector_data = [ToUnifiedFormat (int64_vector (\<lambda>i. int i)) 1500]\<rparr> int64_chunk 1500
        int64_segment = Some (Inr (476, segment1))
    \<and> chunk_counts int64_segment = [0] \<and> chunk_counts segment1 = [1024, 0]
    \<and> build 1024 True (Appended (Created [LogicalPlain INT64]) int64_chunk) = Some this
    \<and> chunks_bounded 1024 this
    \<and> map (map_option chunk_counts) (segments this) = [Some [1024, 476]]"
proof -
  from int64_first_iteration obtain segment1 where
    a: "Append_body 1024 [ColumnDataCopyFunction (ColumnDataCopy T_int64_t) []] 1
        \<lparr>state_vector_data = [ToUnifiedFormat (int64_vector (\<lambda>i. int i)) 1500]\<rparr> int64_chunk 1500
        int64_segment = Some (Inr (476, segment1))"
    and c: "chunk_counts int64_segment = [0]"
    by blast
  from int64_overflow [of "\<lambda>i. int i"] obtain this where
    r: "Append_chunk 1024 (new_collection [LogicalPlain INT64]) int64_chunk = Some (None, this)"
    and m: "map (map_option chunk_counts) (segments this) = [Some [1024, 476]]"
    by (auto simp: int64_chunk_def)
  have b: "build 1024 True (Appended (Created [LogicalPlain INT64]) int64_chunk) = Some this"
    by (simp add: int64_new_collection r)
  from append_fills_chunks_up_to_the_vector_size
         [of 1024 "[ColumnDataCopyFunction (ColumnDataCopy T_int64_t) []]" 1
            "\<lparr>state_vector_data = [ToUnifiedFormat (int64_vector (\<lambda>i. int i)) 1500]\<rparr>"
            int64_chunk 1500 int64_segment 476 segment1 True
            "Appended (Created [LogicalPlain INT64]) int64_chunk" this] a c b m
  show ?thesis by (auto simp: Let_def)
qed


section \<open>The copy engine on a descriptor chain\<close>

subsection \<open>Rows written by the inner loop\<close>

definition is_prefix :: "'a list \<Rightarrow> 'a list \<Rightarrow> bool" where
  "is_prefix xs ys = (take (length xs) ys = xs)"

lemma is_prefix_refl [simp]: "is_prefix xs xs"
  by (simp add: is_prefix_def)

lemma is_prefix_append [simp]: "is_prefix xs (xs @ ys)"
  by (simp add: is_prefix_def)

lemma is_prefix_trans: "is_prefix xs ys \<Longrightarrow> is_prefix ys zs \<Longrightarrow> is_prefix xs zs"
  unfolding is_prefix_def
  by (metis append_eq_conv_conj append.assoc append_take_drop_id)

lemma is_prefix_length: "is_prefix xs ys \<Longrightarrow> length xs \<le> length ys"
  unfolding is_prefix_def by (metis length_take min.cobounded2 min.commute)

lemma is_prefix_nth: "is_prefix xs ys \<Longrightarrow> i < length xs \<Longrightarrow> ys ! i = xs ! i"
  unfolding is_prefix_def by (metis nth_take)

lemma Operation_heap_grows: "is_prefix h (fst (Operation OP meta_data mem h input))"
  by (cases OP; cases input) (auto simp: AddBlob_def Let_def split: prod.splits)

definition row_is_valid :: "UnifiedVectorFormat \<Rightarrow> idx_t \<Rightarrow> idx_t \<Rightarrow> bool" where
  "row_is_valid source_data offset i = RowIsValid (validity source_data) (sel source_data (offset + i))"

definition copy_rows_step ::
  "value_copy \<Rightarrow> ColumnDataMetaData \<Rightarrow> UnifiedVectorFormat \<Rightarrow> Vector \<Rightarrow> idx_t \<Rightarrow> idx_t \<Rightarrow> idx_t \<Rightarrow>
     string list \<times> block_region \<Rightarrow> string list \<times> block_region" where
  "copy_rows_step OP meta_data source_data source offset current_count i st =
     (let source_idx = sel source_data (offset + i) in
      if RowIsValid (validity source_data) source_idx
      then Assign OP meta_data (string_memory source) (data source_data)
             (current_count + i) source_idx st
      else (fst st, SetInvalid (snd st) (current_count + i)))"

lemma copy_rows_0 [simp]:
  "copy_rows OP meta_data source_data source offset current_count 0 st = st"
  by (simp add: copy_rows_def)

lemma copy_rows_Suc:
  "copy_rows OP meta_data source_data source offset current_count (Suc n) st =
     copy_rows_step OP meta_data source_data source offset current_count n
       (copy_rows OP meta_data source_data source offset current_count n st)"
  by (simp add: copy_rows_def copy_rows_step_def)

lemma copy_rows_step_heap_grows:
  "is_prefix (fst st)
     (fst (copy_rows_step OP meta_data source_data source offset current_count i st))"
  using Operation_heap_grows
      [of "fst st" OP meta_data "string_memory source"
          "data source_data (sel source_data (offset + i))"]
  by (auto simp: copy_rows_step_def Assign_def Let_def split: prod.splits)

lemma copy_rows_heap_grows:
  "is_prefix (fst st) (fst (copy_rows OP meta_data source_data source offset current_count n st))"
proof (induction n)
  case 0
  show ?case by simp
next
  case (Suc n)
  then show ?case
    using copy_rows_step_heap_grows is_prefix_trans unfolding copy_rows_Suc by blast
qed

lemma copy_rows_validity:
  "region_validity (snd (copy_rows OP meta_data source_data source offset current_count n st)) k =
     (if current_count \<le> k \<and> k < current_count + n
           \<and> \<not> row_is_valid source_data offset (k - current_count)
      then False else region_validity (snd st) k)"
proof (induction n)
  case 0
  show ?case by auto
next
  case (Suc n)
  let ?st = "copy_rows OP meta_data source_data source offset current_count n st"
  have step: "region_validity
      (snd (copy_rows_step OP meta_data source_data source offset current_count n ?st)) k =
      (if k = current_count + n \<and> \<not> row_is_valid source_data offset n then False
       else region_validity (snd ?st) k)"
    by (auto simp: copy_rows_step_def Assign_def SetInvalid_def row_is_valid_def Let_def
        split: prod.splits)
  show ?case
    unfolding copy_rows_Suc step Suc.IH
    by (auto simp: less_Suc_eq)
qed

lemma copy_rows_data_outside:
  assumes "k < current_count \<or> current_count + n \<le> k
             \<or> \<not> row_is_valid source_data offset (k - current_count) \<or> OP = StructValueCopy"
  shows "region_data (snd (copy_rows OP meta_data source_data source offset current_count n st)) k =
     region_data (snd st) k"
  using assms
proof (induction n)
  case 0
  show ?case by simp
next
  case (Suc n)
  let ?st = "copy_rows OP meta_data source_data source offset current_count n st"
  have step: "region_data
      (snd (copy_rows_step OP meta_data source_data source offset current_count n ?st)) k =
      region_data (snd ?st) k"
    using Suc.prems
    by (auto simp: copy_rows_step_def Assign_def SetInvalid_def row_is_valid_def Let_def
        split: prod.splits)
  from Suc.prems have "k < current_count \<or> current_count + n \<le> k
             \<or> \<not> row_is_valid source_data offset (k - current_count) \<or> OP = StructValueCopy"
    by auto
  from Suc.IH [OF this] show ?case
    unfolding copy_rows_Suc step .
qed

text \<open>
  A valid row of the source is stored as \<open>Operation\<close> returns it, for some heap between
  the heap before and the heap after the copy.
\<close>

definition row_copied ::
  "value_copy \<Rightarrow> ColumnDataMetaData \<Rightarrow> memory \<Rightarrow> string list \<Rightarrow> string list \<Rightarrow> data_value \<Rightarrow>
     data_value \<Rightarrow> bool" where
  "row_copied OP meta_data mem h0 h1 input v =
     (\<exists>h. is_prefix h0 h \<and> is_prefix (fst (Operation OP meta_data mem h input)) h1
           \<and> v = snd (Operation OP meta_data mem h input))"

lemma row_copied_mono:
  assumes "row_copied OP meta_data mem h0 h1 input v" and "is_prefix g0 h0" and "is_prefix h1 g1"
  shows "row_copied OP meta_data mem g0 g1 input v"
proof -
  from assms(1) obtain h where h: "is_prefix h0 h"
    "is_prefix (fst (Operation OP meta_data mem h input)) h1"
    "v = snd (Operation OP meta_data mem h input)"
    unfolding row_copied_def by blast
  from h(1) assms(2) have "is_prefix g0 h" using is_prefix_trans by blast
  moreover from h(2) assms(3) have "is_prefix (fst (Operation OP meta_data mem h input)) g1"
    using is_prefix_trans by blast
  ultimately show ?thesis using h(3) unfolding row_copied_def by blast
qed

lemma copy_rows_data_inside:
  assumes "i < n" and "row_is_valid source_data offset i" and "OP \<noteq> StructValueCopy"
  shows "row_copied OP meta_data (string_memory source) (fst st)
           (fst (copy_rows OP meta_data source_data source offset current_count n st))
           (data source_data (sel source_data (offset + i)))
           (region_data (snd (copy_rows OP meta_data source_data source offset current_count n st))
              (current_count + i))"
  using assms(1)
proof (induction n)
  case 0
  then show ?case by simp
next
  case (Suc n)
  let ?st = "copy_rows OP meta_data source_data source offset current_count n st"
  let ?st1 = "copy_rows_step OP meta_data source_data source offset current_count n ?st"
  let ?input = "data source_data (sel source_data (offset + i))"
  have grow0: "is_prefix (fst st) (fst ?st)" by (rule copy_rows_heap_grows)
  have grow1: "is_prefix (fst ?st) (fst ?st1)" by (rule copy_rows_step_heap_grows)
  show ?case
  proof (cases "i < n")
    case True
    have same: "region_data (snd ?st1) (current_count + i) =
        region_data (snd ?st) (current_count + i)"
      using True
      by (auto simp: copy_rows_step_def Assign_def SetInvalid_def Let_def split: prod.splits)
    from row_copied_mono [OF Suc.IH [OF True] is_prefix_refl grow1] show ?thesis
      unfolding copy_rows_Suc same .
  next
    case False
    with Suc.prems have i: "i = n" by simp
    have st1: "?st1 =
       (fst (Operation OP meta_data (string_memory source) (fst ?st) ?input),
        (snd ?st)\<lparr>region_data := (region_data (snd ?st))
           (current_count + n :=
              snd (Operation OP meta_data (string_memory source) (fst ?st) ?input))\<rparr>)"
      using assms(2,3) i
      by (simp add: copy_rows_step_def Assign_def row_is_valid_def Let_def split: prod.splits)
    show ?thesis
      unfolding copy_rows_Suc row_copied_def
      apply (rule exI [of _ "fst ?st"])
      apply (subst (1 2) st1)
      using grow0 i by simp
  qed
qed


subsection \<open>Descriptor chains\<close>

text \<open>
  \<open>path segment p ds q\<close>: following \<open>next_data\<close> from the index \<open>p\<close> visits the
  descriptors \<open>ds\<close> in order and arrives at the index \<open>q\<close>. The chain of a column is the
  path from its root descriptor to the invalid index.
\<close>

fun path ::
  "ColumnDataCollectionSegment \<Rightarrow> VectorDataIndex \<Rightarrow> nat list \<Rightarrow> VectorDataIndex \<Rightarrow> bool" where
  "path segment p [] q = (p = q)"
| "path segment p (i # ds) q =
     (p = Some i \<and> i < length (vector_data segment) \<and>
      path segment (next_data (vector_data segment ! i)) ds q)"

definition descriptor_rows :: "VectorMetaData \<Rightarrow> (bool \<times> data_value) list" where
  "descriptor_rows v =
     map (\<lambda>k. (region_validity (block v) k, region_data (block v) k)) [0..<vcount v]"

definition chain_rows :: "ColumnDataCollectionSegment \<Rightarrow> nat list \<Rightarrow> (bool \<times> data_value) list"
  where
  "chain_rows segment ds = concat (map (\<lambda>i. descriptor_rows (vector_data segment ! i)) ds)"

text \<open>
  A descriptor that has been written holds at most \<open>STANDARD_VECTOR_SIZE\<close> rows, and the
  validity bits of its unwritten rows are set. In a packed chain every descriptor but the
  last is full.
\<close>

definition descriptor_initialised :: "idx_t \<Rightarrow> VectorMetaData \<Rightarrow> bool" where
  "descriptor_initialised STANDARD_VECTOR_SIZE v =
     (vcount v \<le> STANDARD_VECTOR_SIZE \<and>
      (vcount v = 0 \<or> list_all (region_validity (block v)) [vcount v..<STANDARD_VECTOR_SIZE]))"

definition packed :: "idx_t \<Rightarrow> ColumnDataCollectionSegment \<Rightarrow> nat list \<Rightarrow> bool" where
  "packed STANDARD_VECTOR_SIZE segment ds =
     (list_all (\<lambda>i. vcount (vector_data segment ! i) = STANDARD_VECTOR_SIZE) (butlast ds) \<and>
      (ds = [] \<or> descriptor_initialised STANDARD_VECTOR_SIZE (vector_data segment ! last ds)))"

lemma path_append:
  "path segment p (xs @ ys) q = (\<exists>m. path segment p xs m \<and> path segment m ys q)"
  by (induction xs arbitrary: p) auto

lemma path_cong:
  assumes "path segment p ds q"
    and "\<And>j. j \<in> set ds \<Longrightarrow> j < length (vector_data segment) \<Longrightarrow>
           j < length (vector_data segment1) \<and>
           next_data (vector_data segment1 ! j) = next_data (vector_data segment ! j)"
  shows "path segment1 p ds q"
  using assms by (induction ds arbitrary: p) auto

lemma path_in_range:
  assumes "path segment p ds q" and "j \<in> set ds"
  shows "j < length (vector_data segment)"
  using assms by (induction ds arbitrary: p) auto

lemma path_next_valid:
  assumes "path segment p (xs @ [i]) q" and "j \<in> set xs"
  shows "next_data (vector_data segment ! j) \<noteq> None"
  using assms
proof (induction xs arbitrary: p)
  case Nil
  then show ?case by simp
next
  case (Cons x xs)
  show ?case
  proof (cases "j = x")
    case True
    from Cons.prems(1) show ?thesis unfolding True by (cases xs) auto
  next
    case False
    with Cons.prems have "j \<in> set xs"
      and "path segment (next_data (vector_data segment ! x)) (xs @ [i]) q" by auto
    with Cons.IH show ?thesis by blast
  qed
qed

lemma chain_rows_append [simp]:
  "chain_rows segment (xs @ ys) = chain_rows segment xs @ chain_rows segment ys"
  by (simp add: chain_rows_def)

lemma chain_rows_Cons [simp]:
  "chain_rows segment (i # ds) = descriptor_rows (vector_data segment ! i) @ chain_rows segment ds"
  by (simp add: chain_rows_def)

lemma chain_rows_Nil [simp]: "chain_rows segment [] = []"
  by (simp add: chain_rows_def)

lemma chain_rows_cong:
  assumes "\<And>j. j \<in> set ds \<Longrightarrow> vector_data segment1 ! j = vector_data segment ! j"
  shows "chain_rows segment1 ds = chain_rows segment ds"
  using assms by (simp add: chain_rows_def cong: map_cong)

text \<open>Reading a chain returns its rows, descriptor by descriptor.\<close>

lemma ReadVectorInternal_loop_path:
  assumes "path segment p ds None"
  shows "ReadVectorInternal_loop segment p target = Some (Inr (target @ chain_rows segment ds))"
  using assms
proof (induction ds arbitrary: p target)
  case Nil
  then show ?case by (simp add: ReadVectorInternal_loop.simps)
next
  case (Cons i ds)
  from Cons.prems have p: "p = Some i" and i: "i < length (vector_data segment)"
    and rest: "path segment (next_data (vector_data segment ! i)) ds None" by auto
  show ?case
    using Cons.IH [OF rest] i
    by (simp add: p ReadVectorInternal_loop.simps [of segment "Some i"] GetVectorData_def
        descriptor_rows_def)
qed


subsection \<open>Writing one descriptor\<close>

definition write_descriptor ::
  "idx_t \<Rightarrow> value_copy \<Rightarrow> ColumnDataMetaData \<Rightarrow> UnifiedVectorFormat \<Rightarrow> Vector \<Rightarrow> idx_t \<Rightarrow> idx_t \<Rightarrow>
     nat \<Rightarrow> ColumnDataCollectionSegment \<Rightarrow> ColumnDataCollectionSegment" where
  "write_descriptor STANDARD_VECTOR_SIZE OP meta_data source_data source offset append_count i
       segment =
     (let v = vector_data segment ! i;
          st = copy_rows OP meta_data source_data source offset (vcount v) append_count
                 (heap segment,
                  if vcount v = 0 then SetAllValid (block v) STANDARD_VECTOR_SIZE else block v)
      in segment\<lparr>heap := fst st,
                 vector_data := (vector_data segment)
                   [i := v\<lparr>block := snd st, vcount := vcount v + append_count\<rparr>]\<rparr>)"

definition rows_copied ::
  "value_copy \<Rightarrow> ColumnDataMetaData \<Rightarrow> UnifiedVectorFormat \<Rightarrow> Vector \<Rightarrow> idx_t \<Rightarrow> string list \<Rightarrow>
     string list \<Rightarrow> (bool \<times> data_value) list \<Rightarrow> bool" where
  "rows_copied OP meta_data source_data source offset h0 h1 rs =
     (is_prefix h0 h1 \<and>
      (\<forall>k < length rs.
         fst (rs ! k) = row_is_valid source_data offset k \<and>
         (row_is_valid source_data offset k \<and> OP \<noteq> StructValueCopy \<longrightarrow>
            row_copied OP meta_data (string_memory source) h0 h1
              (data source_data (sel source_data (offset + k))) (snd (rs ! k)))))"

lemma rows_copied_Nil [simp]: "rows_copied OP meta_data source_data source offset h h []"
  by (simp add: rows_copied_def)

lemma rows_copied_append:
  assumes a: "rows_copied OP meta_data source_data source offset h0 h1 rs"
    and b: "rows_copied OP meta_data source_data source (offset + length rs) h1 h2 rs1"
  shows "rows_copied OP meta_data source_data source offset h0 h2 (rs @ rs1)"
proof -
  from a b have p01: "is_prefix h0 h1" and p12: "is_prefix h1 h2"
    by (simp_all add: rows_copied_def)
  then have p02: "is_prefix h0 h2" using is_prefix_trans by blast
  have "fst ((rs @ rs1) ! k) = row_is_valid source_data offset k \<and>
         (row_is_valid source_data offset k \<and> OP \<noteq> StructValueCopy \<longrightarrow>
            row_copied OP meta_data (string_memory source) h0 h2
              (data source_data (sel source_data (offset + k))) (snd ((rs @ rs1) ! k)))"
    if k: "k < length (rs @ rs1)" for k
  proof (cases "k < length rs")
    case True
    with a have "fst (rs ! k) = row_is_valid source_data offset k"
      and "row_is_valid source_data offset k \<and> OP \<noteq> StructValueCopy \<longrightarrow>
            row_copied OP meta_data (string_memory source) h0 h1
              (data source_data (sel source_data (offset + k))) (snd (rs ! k))"
      by (simp_all add: rows_copied_def)
    with True show ?thesis
      using row_copied_mono [OF _ is_prefix_refl p12] by (auto simp: nth_append)
  next
    case False
    define j where "j = k - length rs"
    from False k have j: "j < length rs1" and kj: "k = length rs + j" by (simp_all add: j_def)
    from b j have "fst (rs1 ! j) = row_is_valid source_data (offset + length rs) j"
      and "row_is_valid source_data (offset + length rs) j \<and> OP \<noteq> StructValueCopy \<longrightarrow>
            row_copied OP meta_data (string_memory source) h1 h2
              (data source_data (sel source_data (offset + length rs + j))) (snd (rs1 ! j))"
      by (simp_all add: rows_copied_def)
    then show ?thesis
      using row_copied_mono [OF _ p01 is_prefix_refl]
      by (auto simp: kj nth_append row_is_valid_def add.assoc)
  qed
  with p02 show ?thesis by (simp add: rows_copied_def)
qed

lemma map_upt_shift: "map f [c..<c + a] = map (\<lambda>k. f (c + k)) [0..<a]"
  by (rule nth_equalityI) simp_all

lemma write_descriptor_frame:
  "length (vector_data (write_descriptor SVS OP meta_data source_data source offset a i segment)) =
     length (vector_data segment)
   \<and> child_indices (write_descriptor SVS OP meta_data source_data source offset a i segment) =
     child_indices segment
   \<and> same_chunks segment
       (write_descriptor SVS OP meta_data source_data source offset a i segment)
   \<and> is_prefix (heap segment)
       (heap (write_descriptor SVS OP meta_data source_data source offset a i segment))
   \<and> (\<forall>j. j \<noteq> i \<longrightarrow>
         vector_data (write_descriptor SVS OP meta_data source_data source offset a i segment) ! j =
         vector_data segment ! j)"
  using copy_rows_heap_grows [of "(heap segment, r)" OP meta_data source_data source offset _ a
      for r]
  by (simp add: write_descriptor_def Let_def same_chunks_def)

lemma write_descriptor_self:
  assumes i: "i < length (vector_data segment)"
  shows "next_data (vector_data
           (write_descriptor SVS OP meta_data source_data source offset a i segment) ! i) =
         next_data (vector_data segment ! i)
     \<and> child_index (vector_data
           (write_descriptor SVS OP meta_data source_data source offset a i segment) ! i) =
         child_index (vector_data segment ! i)
     \<and> vcount (vector_data
           (write_descriptor SVS OP meta_data source_data source offset a i segment) ! i) =
         vcount (vector_data segment ! i) + a"
  using i by (simp add: write_descriptor_def Let_def)

lemma write_descriptor_rows:
  assumes i: "i < length (vector_data segment)"
    and init: "descriptor_initialised SVS (vector_data segment ! i)"
    and fits: "vcount (vector_data segment ! i) + a \<le> SVS"
  shows "\<exists>rs. length rs = a
     \<and> descriptor_rows (vector_data
           (write_descriptor SVS OP meta_data source_data source offset a i segment) ! i) =
         descriptor_rows (vector_data segment ! i) @ rs
     \<and> rows_copied OP meta_data source_data source offset (heap segment)
         (heap (write_descriptor SVS OP meta_data source_data source offset a i segment)) rs
     \<and> descriptor_initialised SVS (vector_data
           (write_descriptor SVS OP meta_data source_data source offset a i segment) ! i)"
proof -
  define v where "v = vector_data segment ! i"
  define base where "base = (if vcount v = 0 then SetAllValid (block v) SVS else block v)"
  define st where "st = copy_rows OP meta_data source_data source offset (vcount v) a
                         (heap segment, base)"
  define rs where "rs = map (\<lambda>k. (region_validity (snd st) (vcount v + k),
                                   region_data (snd st) (vcount v + k))) [0..<a]"
  have w: "vector_data (write_descriptor SVS OP meta_data source_data source offset a i segment) ! i
      = v\<lparr>block := snd st, vcount := vcount v + a\<rparr>"
    and h: "heap (write_descriptor SVS OP meta_data source_data source offset a i segment) = fst st"
    using i by (simp_all add: write_descriptor_def Let_def v_def st_def base_def)
  have base_unwritten: "region_validity base k" if "vcount v \<le> k" "k < SVS" for k
    using init that
    by (auto simp: base_def SetAllValid_def descriptor_initialised_def v_def list_all_iff)
  have val: "region_validity (snd st) k =
     (if vcount v \<le> k \<and> k < vcount v + a \<and> \<not> row_is_valid source_data offset (k - vcount v)
      then False else region_validity base k)" for k
    unfolding st_def using copy_rows_validity [of OP meta_data source_data source offset
        "vcount v" a "(heap segment, base)" k] by simp
  have old_val: "region_validity (snd st) k = region_validity (block v) k" if "k < vcount v" for k
    using that by (auto simp: val base_def)
  have old_data: "region_data (snd st) k = region_data (block v) k" if "k < vcount v" for k
    unfolding st_def
    using that copy_rows_data_outside [of k "vcount v" a source_data offset OP meta_data source
        "(heap segment, base)"]
    by (auto simp: base_def SetAllValid_def)
  have "map (\<lambda>k. (region_validity (snd st) k, region_data (snd st) k)) [0..<vcount v + a] =
        map (\<lambda>k. (region_validity (snd st) k, region_data (snd st) k)) [0..<vcount v] @
        map (\<lambda>k. (region_validity (snd st) k, region_data (snd st) k)) [vcount v..<vcount v + a]"
    using upt_add_eq_append [of 0 "vcount v" a] by simp
  also have "map (\<lambda>k. (region_validity (snd st) k, region_data (snd st) k)) [0..<vcount v] =
        descriptor_rows v"
    unfolding descriptor_rows_def by (rule map_cong) (simp_all add: old_val old_data)
  also have "map (\<lambda>k. (region_validity (snd st) k, region_data (snd st) k))
               [vcount v..<vcount v + a] = rs"
    unfolding rs_def by (rule map_upt_shift)
  finally have rows: "descriptor_rows (v\<lparr>block := snd st, vcount := vcount v + a\<rparr>) =
      descriptor_rows v @ rs"
    by (simp add: descriptor_rows_def [of "v\<lparr>block := snd st, vcount := vcount v + a\<rparr>"])
  have grow: "is_prefix (heap segment) (fst st)"
    unfolding st_def
    using copy_rows_heap_grows [of "(heap segment, base)" OP meta_data source_data source offset
        "vcount v" a] by simp
  have copied: "rows_copied OP meta_data source_data source offset (heap segment) (fst st) rs"
    unfolding rows_copied_def
  proof (intro conjI allI impI)
    show "is_prefix (heap segment) (fst st)" by (rule grow)
  next
    fix k assume k: "k < length rs"
    then have ka: "k < a" by (simp add: rs_def)
    with fits have "vcount v + k < SVS" by (simp add: v_def)
    with ka show "fst (rs ! k) = row_is_valid source_data offset k"
      by (simp add: rs_def val base_unwritten)
  next
    fix k assume k: "k < length rs"
      and "row_is_valid source_data offset k \<and> OP \<noteq> StructValueCopy"
    then have ka: "k < a" and valid: "row_is_valid source_data offset k"
      and op: "OP \<noteq> StructValueCopy" by (simp_all add: rs_def)
    from copy_rows_data_inside [OF ka valid op, of meta_data source "(heap segment, base)"
        "vcount v"] ka
    show "row_copied OP meta_data (string_memory source) (heap segment) (fst st)
            (data source_data (sel source_data (offset + k))) (snd (rs ! k))"
      by (simp add: rs_def st_def)
  qed
  have init1: "descriptor_initialised SVS (v\<lparr>block := snd st, vcount := vcount v + a\<rparr>)"
    using fits base_unwritten
    by (auto simp: descriptor_initialised_def v_def val list_all_iff)
  show ?thesis
    apply (rule exI [of _ rs])
    using rows copied init1 by (simp add: w h v_def rs_def)
qed


subsection \<open>The iterations of the copy loop\<close>

definition fresh_descriptor :: VectorMetaData where
  "fresh_descriptor =
     \<lparr>block = uninitialized_block, vcount = 0, child_index = None, next_data = None\<rparr>"

text \<open>The segment after a descriptor has been allocated and linked behind descriptor \<open>i\<close>.\<close>

definition link_new :: "nat \<Rightarrow> ColumnDataCollectionSegment \<Rightarrow> ColumnDataCollectionSegment" where
  "link_new i segment =
     segment\<lparr>vector_data := (vector_data segment @ [fresh_descriptor])
       [i := (vector_data segment ! i)\<lparr>next_data := Some (length (vector_data segment))\<rparr>]\<rparr>"

lemma AllocateVector_link_new:
  assumes "i < length (vector_data segment)"
  shows "AllocateVector t (Some i) segment = ((None, link_new i segment), length (vector_data segment))"
  using assms
  by (simp add: AllocateVector_def AllocateVectorInternal_def link_new_def fresh_descriptor_def
      Let_def nth_append)

lemma TemplatedColumnDataCopy_body_at:
  assumes i: "i < length (vector_data segment)"
  shows "TemplatedColumnDataCopy_body SVS OP meta_data source_data source (Some i) offset
           remaining segment =
     (let v = vector_data segment ! i;
          a = min (idx_sub SVS (vcount v)) remaining;
          s1 = write_descriptor SVS OP meta_data source_data source offset a i segment
      in if 0 < remaining - a then
           (case (if next_data v = None
                  then fst (AllocateVector (GetType source) (Some i) s1) else (None, s1)) of
              (Some e, s2) \<Rightarrow> Inl (e, s2)
            | (None, s2) \<Rightarrow>
                (case GetVectorData s2 (Some i) of
                   None \<Rightarrow> Inl (UndefinedBehavior, s2)
                 | Some w \<Rightarrow>
                     (case D_ASSERT (next_data w \<noteq> None) of
                        Some e \<Rightarrow> Inl (e, s2)
                      | None \<Rightarrow> Inr (next_data w, offset + a, remaining - a, s2))))
         else Inr (Some i, offset + a, remaining - a, s1))"
proof -
  define v where "v = vector_data segment ! i"
  have g: "GetVectorData segment (Some i) = Some v"
    using i by (simp add: GetVectorData_def v_def)
  obtain heap1 region1 where cr:
    "copy_rows OP meta_data source_data source offset (vcount v)
       (min (idx_sub SVS (vcount v)) remaining)
       (heap segment, if vcount v = 0 then SetAllValid (block v) SVS else block v) =
     (heap1, region1)"
    by (metis surj_pair)
  have w: "write_descriptor SVS OP meta_data source_data source offset
             (min (idx_sub SVS (vcount v)) remaining) i segment =
           segment\<lparr>heap := heap1, vector_data := (vector_data segment)
             [i := v\<lparr>block := region1,
                     vcount := vcount v + min (idx_sub SVS (vcount v)) remaining\<rparr>]\<rparr>"
    using cr by (simp add: write_descriptor_def Let_def v_def [symmetric])
  show ?thesis
    unfolding TemplatedColumnDataCopy_body_Some [OF g cr] Let_def v_def [symmetric] w
    by simp
qed

lemma write_descriptor_0:
  assumes "i < length (vector_data segment)" and "vcount (vector_data segment ! i) \<noteq> 0"
  shows "write_descriptor SVS OP meta_data source_data source offset 0 i segment = segment"
  using assms by (simp add: write_descriptor_def Let_def)

lemma TemplatedColumnDataCopy_loop_skip:
  assumes i: "i < length (vector_data segment)"
    and full: "vcount (vector_data segment ! i) = SVS" and svs: "0 < SVS"
    and nxt: "next_data (vector_data segment ! i) = Some j"
    and rem: "0 < remaining"
  shows "TemplatedColumnDataCopy_loop SVS OP meta_data source_data source (Some i) offset
           remaining segment =
         TemplatedColumnDataCopy_loop SVS OP meta_data source_data source (Some j) offset
           remaining segment"
proof -
  have a: "min (idx_sub SVS (vcount (vector_data segment ! i))) remaining = 0"
    using full by (simp add: idx_sub_def)
  have w: "write_descriptor SVS OP meta_data source_data source offset 0 i segment = segment"
    using i full svs by (simp add: write_descriptor_0)
  have "TemplatedColumnDataCopy_body SVS OP meta_data source_data source (Some i) offset
           remaining segment = Inr (Some j, offset, remaining, segment)"
    unfolding TemplatedColumnDataCopy_body_at [OF i] Let_def a w
    using rem nxt i by (simp add: GetVectorData_def D_ASSERT_def)
  then show ?thesis
    using rem
    by (simp add: TemplatedColumnDataCopy_loop.simps
        [of SVS OP meta_data source_data source "Some i" offset remaining])
qed

lemma TemplatedColumnDataCopy_loop_write:
  assumes i: "i < length (vector_data segment)"
    and fits: "vcount (vector_data segment ! i) + n \<le> SVS" and n: "0 < n"
  shows "TemplatedColumnDataCopy_loop SVS OP meta_data source_data source (Some i) offset n
           segment =
         Some (None, write_descriptor SVS OP meta_data source_data source offset n i segment)"
proof -
  have a: "min (idx_sub SVS (vcount (vector_data segment ! i))) n = n"
    using fits by (simp add: idx_sub_def)
  have "TemplatedColumnDataCopy_body SVS OP meta_data source_data source (Some i) offset
           n segment =
        Inr (Some i, offset + n, 0,
             write_descriptor SVS OP meta_data source_data source offset n i segment)"
    unfolding TemplatedColumnDataCopy_body_at [OF i] Let_def a by simp
  then show ?thesis
    using n
    by (simp add: TemplatedColumnDataCopy_loop.simps
        [of SVS OP meta_data source_data source "Some i" offset n]
        TemplatedColumnDataCopy_loop.simps [of SVS OP meta_data source_data source _ _ 0])
qed

lemma TemplatedColumnDataCopy_loop_overflow:
  assumes i: "i < length (vector_data segment)"
    and le: "vcount (vector_data segment ! i) \<le> SVS"
    and over: "SVS - vcount (vector_data segment ! i) < n"
    and last: "next_data (vector_data segment ! i) = None"
  shows "TemplatedColumnDataCopy_loop SVS OP meta_data source_data source (Some i) offset n
           segment =
         TemplatedColumnDataCopy_loop SVS OP meta_data source_data source
           (Some (length (vector_data segment)))
           (offset + (SVS - vcount (vector_data segment ! i)))
           (n - (SVS - vcount (vector_data segment ! i)))
           (link_new i (write_descriptor SVS OP meta_data source_data source offset
                          (SVS - vcount (vector_data segment ! i)) i segment))"
proof -
  define a where "a = SVS - vcount (vector_data segment ! i)"
  define s1 where "s1 = write_descriptor SVS OP meta_data source_data source offset a i segment"
  have am: "min (idx_sub SVS (vcount (vector_data segment ! i))) n = a"
    using le over by (simp add: idx_sub_def a_def)
  have len: "length (vector_data s1) = length (vector_data segment)"
    using write_descriptor_frame [of SVS OP meta_data source_data source offset a i segment]
    by (simp add: s1_def)
  have i1: "i < length (vector_data s1)" using i len by simp
  have g: "GetVectorData (link_new i s1) (Some i) =
      Some ((vector_data s1 ! i)\<lparr>next_data := Some (length (vector_data s1))\<rparr>)"
    using i1 by (simp add: GetVectorData_def link_new_def)
  have "TemplatedColumnDataCopy_body SVS OP meta_data source_data source (Some i) offset
           n segment =
        Inr (Some (length (vector_data segment)), offset + a, n - a, link_new i s1)"
    unfolding TemplatedColumnDataCopy_body_at [OF i] Let_def am s1_def [symmetric]
    using over last g by (simp add: AllocateVector_link_new [OF i1] a_def D_ASSERT_def len)
  then show ?thesis
    using over
    by (simp add: TemplatedColumnDataCopy_loop.simps
        [of SVS OP meta_data source_data source "Some i" offset n] a_def s1_def)
qed


subsection \<open>The copy loop on a chain\<close>

text \<open>
  What a run of the copy loop that starts at the last descriptor \<open>i\<close> of a chain does to
  the segment: the descriptors \<open>new\<close> are allocated and linked behind \<open>i\<close>, the rows \<open>rs\<close>
  are appended to the rows of the chain, and nothing else changes.
\<close>

definition chain_extended ::
  "idx_t \<Rightarrow> value_copy \<Rightarrow> ColumnDataMetaData \<Rightarrow> UnifiedVectorFormat \<Rightarrow> Vector \<Rightarrow> idx_t \<Rightarrow> nat \<Rightarrow>
     ColumnDataCollectionSegment \<Rightarrow> ColumnDataCollectionSegment \<Rightarrow> nat list \<Rightarrow>
     (bool \<times> data_value) list \<Rightarrow> bool" where
  "chain_extended SVS OP meta_data source_data source offset i segment segment1 new rs =
     (length (vector_data segment1) = length (vector_data segment) + length new
      \<and> new = [length (vector_data segment)..<length (vector_data segment1)]
      \<and> (\<forall>j < length (vector_data segment). j \<noteq> i \<longrightarrow>
            vector_data segment1 ! j = vector_data segment ! j)
      \<and> child_index (vector_data segment1 ! i) = child_index (vector_data segment ! i)
      \<and> (\<forall>j \<in> set new. child_index (vector_data segment1 ! j) = None)
      \<and> path segment1 (Some i) (i # new) None
      \<and> packed SVS segment1 (i # new)
      \<and> chain_rows segment1 (i # new) = descriptor_rows (vector_data segment ! i) @ rs
      \<and> rows_copied OP meta_data source_data source offset (heap segment) (heap segment1) rs
      \<and> child_indices segment1 = child_indices segment
      \<and> same_chunks segment segment1)"

lemma link_new_frame:
  assumes i: "i < length (vector_data segment)"
  shows "length (vector_data (link_new i segment)) = Suc (length (vector_data segment))"
    and "vector_data (link_new i segment) ! i =
           (vector_data segment ! i)\<lparr>next_data := Some (length (vector_data segment))\<rparr>"
    and "vector_data (link_new i segment) ! length (vector_data segment) = fresh_descriptor"
    and "\<And>j. j < length (vector_data segment) \<Longrightarrow> j \<noteq> i \<Longrightarrow>
           vector_data (link_new i segment) ! j = vector_data segment ! j"
    and "heap (link_new i segment) = heap segment"
    and "child_indices (link_new i segment) = child_indices segment"
    and "same_chunks segment (link_new i segment)"
  using i by (simp_all add: link_new_def nth_append same_chunks_def)

lemma descriptor_rows_next_data [simp]:
  "descriptor_rows (v\<lparr>next_data := x\<rparr>) = descriptor_rows v"
  by (simp add: descriptor_rows_def)

lemma descriptor_rows_fresh [simp]: "descriptor_rows fresh_descriptor = []"
  by (simp add: descriptor_rows_def fresh_descriptor_def)

lemma TemplatedColumnDataCopy_loop_last:
  assumes svs: "0 < SVS"
    and "i < length (vector_data segment)"
    and "next_data (vector_data segment ! i) = None"
    and "descriptor_initialised SVS (vector_data segment ! i)"
  shows "\<exists>segment1 new rs.
      TemplatedColumnDataCopy_loop SVS OP meta_data source_data source (Some i) offset n segment =
        Some (None, segment1)
    \<and> length rs = n
    \<and> chain_extended SVS OP meta_data source_data source offset i segment segment1 new rs"
  using assms(2-)
proof (induction "2 * n + (if vcount (vector_data segment ! i) = SVS then 1 else 0 :: nat)"
    arbitrary: segment i offset n rule: less_induct)
  case less
  note i = less.prems(1) and last = less.prems(2) and init = less.prems(3)
  let ?v = "vector_data segment ! i"
  from init have le: "vcount ?v \<le> SVS" by (simp add: descriptor_initialised_def)
  consider (zero) "n = 0" | (fits) "0 < n" "vcount ?v + n \<le> SVS"
    | (over) "SVS - vcount ?v < n"
    using le by linarith
  then show ?case
  proof cases
    case zero
    have "chain_extended SVS OP meta_data source_data source offset i segment segment [] []"
      using i last init
      by (simp add: chain_extended_def packed_def)
    then show ?thesis
      using zero
      by (intro exI [of _ segment] exI [of _ "[]"])
         (simp add: TemplatedColumnDataCopy_loop.simps [of _ _ _ _ _ _ _ 0])
  next
    case fits
    let ?s1 = "write_descriptor SVS OP meta_data source_data source offset n i segment"
    from write_descriptor_rows [OF i init fits(2), of OP meta_data source_data source offset]
    obtain rs where rs: "length rs = n"
      "descriptor_rows (vector_data ?s1 ! i) = descriptor_rows ?v @ rs"
      "rows_copied OP meta_data source_data source offset (heap segment) (heap ?s1) rs"
      "descriptor_initialised SVS (vector_data ?s1 ! i)"
      by blast
    note fr = write_descriptor_frame [of SVS OP meta_data source_data source offset n i segment]
      and sf = write_descriptor_self [OF i, of SVS OP meta_data source_data source offset n]
    have "chain_extended SVS OP meta_data source_data source offset i segment ?s1 [] rs"
      unfolding chain_extended_def
      using fr sf rs i last by (simp add: packed_def)
    then show ?thesis
      using TemplatedColumnDataCopy_loop_write [OF i fits(2,1), of OP meta_data source_data
          source offset] rs(1)
      by blast
  next
    case over
    define a where "a = SVS - vcount ?v"
    define sw where "sw = write_descriptor SVS OP meta_data source_data source offset a i segment"
    define s2 where "s2 = link_new i sw"
    define L where "L = length (vector_data segment)"
    have afit: "vcount ?v + a \<le> SVS" and afull: "vcount ?v + a = SVS"
      using le by (simp_all add: a_def)
    from write_descriptor_rows [OF i init afit, of OP meta_data source_data source offset]
    obtain rsa where rsa: "length rsa = a"
      "descriptor_rows (vector_data sw ! i) = descriptor_rows ?v @ rsa"
      "rows_copied OP meta_data source_data source offset (heap segment) (heap sw) rsa"
      unfolding sw_def by blast
    note fr = write_descriptor_frame [of SVS OP meta_data source_data source offset a i segment,
        folded sw_def]
      and sf = write_descriptor_self [OF i, of SVS OP meta_data source_data source offset a,
        folded sw_def]
    from fr have lw: "length (vector_data sw) = L" by (simp add: L_def)
    with i have iw: "i < length (vector_data sw)" by (simp add: L_def)
    note ln = link_new_frame [OF iw, folded s2_def, unfolded lw]
    have L2: "L < length (vector_data s2)" using ln(1) by simp
    have iL: "i \<noteq> L" using i by (simp add: L_def)
    have nL: "next_data (vector_data s2 ! L) = None"
      and cL: "child_index (vector_data s2 ! L) = None"
      and vL: "vcount (vector_data s2 ! L) = 0"
      using ln(3) by (simp_all add: fresh_descriptor_def)
    have initL: "descriptor_initialised SVS (vector_data s2 ! L)"
      using vL by (simp add: descriptor_initialised_def)
    have measure: "2 * (n - a) + (if vcount (vector_data s2 ! L) = SVS then 1 else 0)
        < 2 * n + (if vcount ?v = SVS then 1 else 0)"
      using over svs le vL by (auto simp: a_def)
    from less.hyps [OF measure L2 nL initL, of "offset + a"]
    obtain segment1 new rs where
      run: "TemplatedColumnDataCopy_loop SVS OP meta_data source_data source (Some L)
              (offset + a) (n - a) s2 = Some (None, segment1)"
      and lrs: "length rs = n - a"
      and ext: "chain_extended SVS OP meta_data source_data source (offset + a) L s2 segment1
                  new rs"
      by blast
    from ext have
      e1: "length (vector_data segment1) = length (vector_data s2) + length new"
      and e2: "new = [length (vector_data s2)..<length (vector_data segment1)]"
      and e3: "\<And>j. j < length (vector_data s2) \<Longrightarrow> j \<noteq> L \<Longrightarrow>
                 vector_data segment1 ! j = vector_data s2 ! j"
      and e4: "child_index (vector_data segment1 ! L) = child_index (vector_data s2 ! L)"
      and e5: "\<forall>j \<in> set new. child_index (vector_data segment1 ! j) = None"
      and e6: "path segment1 (Some L) (L # new) None"
      and e7: "packed SVS segment1 (L # new)"
      and e8: "chain_rows segment1 (L # new) = descriptor_rows (vector_data s2 ! L) @ rs"
      and e9: "rows_copied OP meta_data source_data source (offset + a) (heap s2)
                 (heap segment1) rs"
      and e10: "child_indices segment1 = child_indices s2"
      and e11: "same_chunks s2 segment1"
      unfolding chain_extended_def by blast+
    have i2: "i < length (vector_data s2)" using i ln(1) by (simp add: L_def)
    have di: "vector_data segment1 ! i = (vector_data sw ! i)\<lparr>next_data := Some L\<rparr>"
      using e3 [OF i2 iL] ln(2) by simp
    have c1: "length (vector_data segment1) = length (vector_data segment) + length (L # new)"
      using e1 ln(1) by (simp add: L_def)
    have c2: "L # new = [length (vector_data segment)..<length (vector_data segment1)]"
      using e1 e2 ln(1) by (simp add: L_def upt_conv_Cons)
    have c3: "\<forall>j < length (vector_data segment). j \<noteq> i \<longrightarrow>
                vector_data segment1 ! j = vector_data segment ! j"
    proof (intro allI impI)
      fix j assume j: "j < length (vector_data segment)" and ji: "j \<noteq> i"
      then have "j < length (vector_data s2)" "j \<noteq> L" "j < L"
        using ln(1) by (simp_all add: L_def)
      then show "vector_data segment1 ! j = vector_data segment ! j"
        using e3 [of j] ln(4) [of j] ji fr by simp
    qed
    have c4: "child_index (vector_data segment1 ! i) = child_index ?v"
      using di sf by simp
    have c5: "\<forall>j \<in> set (L # new). child_index (vector_data segment1 ! j) = None"
      using e4 e5 cL by simp
    have c6: "path segment1 (Some i) (i # L # new) None"
      using e6 di i c1 by simp
    have c7: "packed SVS segment1 (i # L # new)"
      using e7 di sf afull by (simp add: packed_def)
    have c8: "chain_rows segment1 (i # L # new) = descriptor_rows ?v @ (rsa @ rs)"
      using e8 di rsa(2) ln(3) by simp
    have c9: "rows_copied OP meta_data source_data source offset (heap segment) (heap segment1)
                (rsa @ rs)"
      using rows_copied_append [OF rsa(3)] e9 rsa(1) ln(5) by simp
    have c10: "child_indices segment1 = child_indices segment"
      using e10 ln(6) fr by simp
    have c11: "same_chunks segment segment1"
      using e11 ln(7) fr same_chunks_trans by blast
    have "chain_extended SVS OP meta_data source_data source offset i segment segment1
            (L # new) (rsa @ rs)"
      unfolding chain_extended_def
      using c1 c2 c3 c4 c5 c6 c7 c8 c9 c10 c11 by blast
    moreover have "TemplatedColumnDataCopy_loop SVS OP meta_data source_data source (Some i)
        offset n segment = Some (None, segment1)"
      using TemplatedColumnDataCopy_loop_overflow [OF i le over last, of OP meta_data source_data
          source offset] run
      by (simp add: a_def sw_def s2_def L_def)
    moreover have "length (rsa @ rs) = n"
      using rsa(1) lrs over by (simp add: a_def)
    ultimately show ?thesis by blast
  qed
qed


lemma TemplatedColumnDataCopy_loop_from_head:
  assumes svs: "0 < SVS"
    and "path segment p (ds @ [i]) None"
    and "packed SVS segment (ds @ [i])"
  shows "\<exists>segment1 new rs.
      TemplatedColumnDataCopy_loop SVS OP meta_data source_data source p offset n segment =
        Some (None, segment1)
    \<and> length rs = n
    \<and> chain_extended SVS OP meta_data source_data source offset i segment segment1 new rs"
  using assms(2-)
proof (induction ds arbitrary: p)
  case Nil
  then have "p = Some i" "i < length (vector_data segment)"
    "next_data (vector_data segment ! i) = None"
    "descriptor_initialised SVS (vector_data segment ! i)"
    by (simp_all add: packed_def)
  with TemplatedColumnDataCopy_loop_last [OF svs, of i segment OP meta_data source_data source
      offset n]
  show ?case by simp
next
  case (Cons d ds)
  from Cons.prems(1) have p: "p = Some d" and d: "d < length (vector_data segment)"
    and rest: "path segment (next_data (vector_data segment ! d)) (ds @ [i]) None"
    by simp_all
  from Cons.prems(2) have full: "vcount (vector_data segment ! d) = SVS"
    and pk: "packed SVS segment (ds @ [i])"
    by (simp_all add: packed_def)
  from rest obtain j where nxt: "next_data (vector_data segment ! d) = Some j"
    by (cases ds) auto
  from Cons.IH [OF rest pk] obtain segment1 new rs where
    run: "TemplatedColumnDataCopy_loop SVS OP meta_data source_data source
            (next_data (vector_data segment ! d)) offset n segment = Some (None, segment1)"
    and r: "length rs = n"
      "chain_extended SVS OP meta_data source_data source offset i segment segment1 new rs"
    by blast
  have "TemplatedColumnDataCopy_loop SVS OP meta_data source_data source p offset n segment =
        Some (None, segment1)"
  proof (cases "n = 0")
    case True
    with run show ?thesis
      by (simp add: TemplatedColumnDataCopy_loop.simps [of _ _ _ _ _ _ _ 0])
  next
    case False
    then have n: "0 < n" by simp
    from TemplatedColumnDataCopy_loop_skip [OF d full svs nxt n, of OP meta_data source_data
        source offset] run nxt p
    show ?thesis by simp
  qed
  with r show ?case by blast
qed

text \<open>
  The result of a copy into a column whose chain is \<open>ds\<close>: the chain grows by the
  descriptors \<open>new\<close>, its rows grow by the rows \<open>rs\<close>, one per copied row, and the
  descriptors outside the chain are as they were.
\<close>

definition chain_appended ::
  "idx_t \<Rightarrow> value_copy \<Rightarrow> ColumnDataMetaData \<Rightarrow> UnifiedVectorFormat \<Rightarrow> Vector \<Rightarrow> idx_t \<Rightarrow>
     VectorDataIndex \<Rightarrow> nat list \<Rightarrow> ColumnDataCollectionSegment \<Rightarrow> ColumnDataCollectionSegment \<Rightarrow>
     nat list \<Rightarrow> (bool \<times> data_value) list \<Rightarrow> bool" where
  "chain_appended SVS OP meta_data source_data source offset p ds segment segment1 new rs =
     (path segment1 p (ds @ new) None
      \<and> packed SVS segment1 (ds @ new)
      \<and> chain_rows segment1 (ds @ new) = chain_rows segment ds @ rs
      \<and> rows_copied OP meta_data source_data source offset (heap segment) (heap segment1) rs
      \<and> new = [length (vector_data segment)..<length (vector_data segment1)]
      \<and> length (vector_data segment) \<le> length (vector_data segment1)
      \<and> (\<forall>j < length (vector_data segment). j \<noteq> last ds \<longrightarrow>
            vector_data segment1 ! j = vector_data segment ! j)
      \<and> child_index (vector_data segment1 ! last ds) = child_index (vector_data segment ! last ds)
      \<and> (\<forall>j \<in> set new. child_index (vector_data segment1 ! j) = None)
      \<and> child_indices segment1 = child_indices segment
      \<and> same_chunks segment segment1)"

lemma TemplatedColumnDataCopy_chain:
  assumes svs: "0 < SVS"
    and pth: "path segment (vector_data_index meta_data) ds None"
    and ne: "ds \<noteq> []"
    and pk: "packed SVS segment ds"
  shows "\<exists>segment1 new rs.
      TemplatedColumnDataCopy SVS OP meta_data source_data source offset n segment =
        Some (None, segment1)
    \<and> length rs = n
    \<and> chain_appended SVS OP meta_data source_data source offset (vector_data_index meta_data) ds
        segment segment1 new rs"
proof -
  define pre where "pre = butlast ds"
  define i where "i = last ds"
  have ds: "ds = pre @ [i]" using ne by (simp add: pre_def i_def)
  from TemplatedColumnDataCopy_loop_from_head [OF svs pth [unfolded ds] pk [unfolded ds],
      of OP meta_data source_data source offset n]
  obtain segment1 new rs where
    run: "TemplatedColumnDataCopy_loop SVS OP meta_data source_data source
            (vector_data_index meta_data) offset n segment = Some (None, segment1)"
    and lrs: "length rs = n"
    and ext: "chain_extended SVS OP meta_data source_data source offset i segment segment1
                new rs"
    by blast
  from ext have
    e1: "length (vector_data segment1) = length (vector_data segment) + length new"
    and e2: "new = [length (vector_data segment)..<length (vector_data segment1)]"
    and e3: "\<And>j. j < length (vector_data segment) \<Longrightarrow> j \<noteq> i \<Longrightarrow>
               vector_data segment1 ! j = vector_data segment ! j"
    and e4: "child_index (vector_data segment1 ! i) = child_index (vector_data segment ! i)"
    and e5: "\<forall>j \<in> set new. child_index (vector_data segment1 ! j) = None"
    and e6: "path segment1 (Some i) (i # new) None"
    and e7: "packed SVS segment1 (i # new)"
    and e8: "chain_rows segment1 (i # new) = descriptor_rows (vector_data segment ! i) @ rs"
    and e9: "rows_copied OP meta_data source_data source offset (heap segment)
               (heap segment1) rs"
    and e10: "child_indices segment1 = child_indices segment"
    and e11: "same_chunks segment segment1"
    unfolding chain_extended_def by blast+
  from pth obtain m where pm: "path segment (vector_data_index meta_data) pre m"
    and mi: "path segment m [i] None"
    unfolding ds path_append by blast
  from mi have m: "m = Some i" and ilast: "next_data (vector_data segment ! i) = None" by simp_all
  have pre_in: "j < length (vector_data segment) \<and> j \<noteq> i" if "j \<in> set pre" for j
  proof -
    from path_next_valid [OF pth [unfolded ds] that] ilast have "j \<noteq> i" by auto
    moreover have "j < length (vector_data segment)"
      using pm that by (rule path_in_range)
    ultimately show ?thesis by simp
  qed
  have pre_same: "vector_data segment1 ! j = vector_data segment ! j" if "j \<in> set pre" for j
    using pre_in [OF that] e3 by simp
  have "path segment1 (vector_data_index meta_data) pre m"
    using pm
  proof (rule path_cong)
    fix j assume "j \<in> set pre" "j < length (vector_data segment)"
    then show "j < length (vector_data segment1) \<and>
        next_data (vector_data segment1 ! j) = next_data (vector_data segment ! j)"
      using pre_same e1 by simp
  qed
  with e6 m have c1: "path segment1 (vector_data_index meta_data) (ds @ new) None"
    unfolding ds by (auto simp: path_append)
  have full_pre: "list_all (\<lambda>j. vcount (vector_data segment1 ! j) = SVS) pre"
    using pk pre_same unfolding ds by (simp add: packed_def list_all_iff)
  have c2: "packed SVS segment1 (ds @ new)"
    using e7 full_pre unfolding ds by (simp add: packed_def butlast_append)
  have "chain_rows segment1 pre = chain_rows segment pre"
    by (rule chain_rows_cong) (rule pre_same)
  then have c3: "chain_rows segment1 (ds @ new) = chain_rows segment ds @ rs"
    using e8 unfolding ds by simp
  have "chain_appended SVS OP meta_data source_data source offset (vector_data_index meta_data)
          ds segment segment1 new rs"
    unfolding chain_appended_def
  proof (intro conjI)
    show "length (vector_data segment) \<le> length (vector_data segment1)"
      using e1 by simp
    show "\<forall>j < length (vector_data segment). j \<noteq> last ds \<longrightarrow>
            vector_data segment1 ! j = vector_data segment ! j"
      using e3 by (simp add: i_def)
    show "child_index (vector_data segment1 ! last ds) =
          child_index (vector_data segment ! last ds)"
      using e4 by (simp add: i_def)
  qed (fact c1 c2 c3 e9 e2 e5 e10 e11)+
  with run lrs show ?thesis
    unfolding TemplatedColumnDataCopy_def by blast
qed

section \<open>Validity\<close>

lemma rows_copied_validity:
  assumes "rows_copied OP meta_data source_data source offset h0 h1 rs"
  shows "map fst rs = map (row_is_valid source_data offset) [0..<length rs]"
  using assms by (intro nth_equalityI) (simp_all add: rows_copied_def)

lemma write_descriptor_validity:
  assumes i: "i < length (vector_data segment)"
  shows "region_validity (block (vector_data
            (write_descriptor SVS OP meta_data source_data source offset a i segment) ! i)) k =
     ((if vcount (vector_data segment ! i) = 0 \<and> k < SVS then True
       else region_validity (block (vector_data segment ! i)) k) \<and>
      \<not> (vcount (vector_data segment ! i) \<le> k \<and> k < vcount (vector_data segment ! i) + a \<and>
         \<not> row_is_valid source_data offset (k - vcount (vector_data segment ! i))))"
  using i
  by (auto simp: write_descriptor_def Let_def copy_rows_validity SetAllValid_def)

lemma TemplatedColumnDataCopy_body_block:
  assumes i: "i < length (vector_data segment)"
  shows "\<exists>current_index1 segment1.
       TemplatedColumnDataCopy_body SVS OP meta_data source_data source (Some i) offset
         remaining segment =
       Inr (current_index1,
            offset + min (idx_sub SVS (vcount (vector_data segment ! i))) remaining,
            remaining - min (idx_sub SVS (vcount (vector_data segment ! i))) remaining, segment1)
     \<and> i < length (vector_data segment1)
     \<and> block (vector_data segment1 ! i) =
         block (vector_data (write_descriptor SVS OP meta_data source_data source offset
                  (min (idx_sub SVS (vcount (vector_data segment ! i))) remaining) i segment) ! i)
     \<and> vcount (vector_data segment1 ! i) =
         vcount (vector_data segment ! i) +
         min (idx_sub SVS (vcount (vector_data segment ! i))) remaining"
proof -
  define a where "a = min (idx_sub SVS (vcount (vector_data segment ! i))) remaining"
  define sw where "sw = write_descriptor SVS OP meta_data source_data source offset a i segment"
  have lw: "length (vector_data sw) = length (vector_data segment)"
    using write_descriptor_frame [of SVS OP meta_data source_data source offset a i segment]
    by (simp add: sw_def)
  then have iw: "i < length (vector_data sw)" using i by simp
  note sf = write_descriptor_self [OF i, of SVS OP meta_data source_data source offset a,
      folded sw_def]
  note ln = link_new_frame(1,2) [OF iw]
  have "\<exists>current_index1 segment1.
       TemplatedColumnDataCopy_body SVS OP meta_data source_data source (Some i) offset
         remaining segment = Inr (current_index1, offset + a, remaining - a, segment1)
     \<and> (segment1 = sw \<or> segment1 = link_new i sw)"
    unfolding TemplatedColumnDataCopy_body_at [OF i] Let_def a_def [symmetric]
      sw_def [symmetric]
    using sf iw ln
    by (auto simp: AllocateVector_link_new [OF iw] GetVectorData_def D_ASSERT_def
        split: option.splits)
  then obtain current_index1 segment1 where
    b: "TemplatedColumnDataCopy_body SVS OP meta_data source_data source (Some i) offset
         remaining segment = Inr (current_index1, offset + a, remaining - a, segment1)"
    and c: "segment1 = sw \<or> segment1 = link_new i sw"
    by blast
  from c have "i < length (vector_data segment1) \<and>
      block (vector_data segment1 ! i) = block (vector_data sw ! i) \<and>
      vcount (vector_data segment1 ! i) = vcount (vector_data sw ! i)"
    using iw ln by auto
  with b sf show ?thesis unfolding sw_def a_def by auto
qed

lemma ColumnDataCopyValidity_fold:
  "region_validity
     (fold (\<lambda>i v. let idx = sel source_data (source_offset + i) in
                     if \<not> RowIsValid m idx then SetInvalid v (target_offset + i) else v)
           [0..<n] v0) k =
   (region_validity v0 k \<and>
    \<not> (target_offset \<le> k \<and> k < target_offset + n \<and>
       \<not> RowIsValid m (sel source_data (source_offset + (k - target_offset)))))"
proof (induction n)
  case 0
  show ?case by auto
next
  case (Suc n)
  show ?case
    using Suc.IH by (auto simp: Let_def SetInvalid_def less_Suc_eq)
qed

lemma ColumnDataCopyValidity_bits:
  "region_validity
     (ColumnDataCopyValidity SVS source_data target source_offset target_offset copy_count) k =
   ((if target_offset = 0 \<and> k < SVS then True else region_validity target k) \<and>
    \<not> (target_offset \<le> k \<and> k < target_offset + copy_count \<and>
       \<not> RowIsValid (validity source_data)
            (sel source_data (source_offset + (k - target_offset)))))"
proof (cases "AllValid (validity source_data)")
  case True
  then show ?thesis
    by (auto simp: ColumnDataCopyValidity_def Let_def SetAllValid_def AllValid_def RowIsValid_def)
next
  case False
  then show ?thesis
    unfolding ColumnDataCopyValidity_def Let_def
    by (simp add: ColumnDataCopyValidity_fold [unfolded Let_def] SetAllValid_def)
qed

definition int32_segment :: ColumnDataCollectionSegment where
  "int32_segment =
     AllocateNewChunk
       \<lparr>segment_allocator = Some (ColumnDataAllocator_of_Allocator 0),
        segment_types = [LogicalPlain INT32], segment_count = 0, chunk_data = [],
        vector_data = [], child_indices = [], heap = []\<rparr>"

definition int32_with_nulls :: Vector where
  "int32_with_nulls =
     Vector (LogicalPlain INT32)
       \<lparr>sel = (\<lambda>i. i), validity = Some (\<lambda>i. i \<noteq> 1 \<and> i \<noteq> 4),
        data = (\<lambda>i. fixed_value (int i))\<rparr> (\<lambda>_. []) 0 []"

definition int32_meta_data :: ColumnDataMetaData where
  "int32_meta_data =
     \<lparr>copy_function = ColumnDataCopyFunction (ColumnDataCopy T_int32_t) [],
      vector_data_index = Some 0, child_list_size = INVALID_INDEX\<rparr>"

text \<open>
  C7: the validity bitmap of a descriptor is set all-valid when the descriptor is written
  for the first time (its count is 0), and a bit is cleared only for a written row whose
  source row is null. This holds for \<open>ColumnDataCopyValidity\<close> and for every iteration of
  \<open>TemplatedColumnDataCopy\<close> on an existing descriptor, which returns normally.
  Consequently, on a packed chain of initialised descriptors the copy returns normally,
  and the validity of the rows read from the chain afterwards is the validity of the rows
  that were there, followed by the validity of the copied source rows in order: a null
  stays a null and a non-null does not become null.
\<close>

theorem validity_follows_the_source:
  "region_validity
     (ColumnDataCopyValidity SVS source_data target source_offset target_offset copy_count) k =
     ((if target_offset = 0 \<and> k < SVS then True else region_validity target k) \<and>
      \<not> (target_offset \<le> k \<and> k < target_offset + copy_count \<and>
         \<not> RowIsValid (validity source_data)
              (sel source_data (source_offset + (k - target_offset)))))
   \<and> (i < length (vector_data segment) \<longrightarrow>
       (\<exists>current_index1 offset1 remaining1 segment1.
          TemplatedColumnDataCopy_body SVS OP meta_data source_data source (Some i) offset
            remaining segment = Inr (current_index1, offset1, remaining1, segment1)
          \<and> i < length (vector_data segment1)
          \<and> region_validity (block (vector_data segment1 ! i)) k =
              ((if vcount (vector_data segment ! i) = 0 \<and> k < SVS then True
                else region_validity (block (vector_data segment ! i)) k) \<and>
               \<not> (vcount (vector_data segment ! i) \<le> k \<and>
                  k < vcount (vector_data segment ! i) +
                      min (idx_sub SVS (vcount (vector_data segment ! i))) remaining \<and>
                  \<not> RowIsValid (validity source_data)
                       (sel source_data (offset + (k - vcount (vector_data segment ! i))))))))
   \<and> (0 < SVS \<and> path segment (vector_data_index meta_data) ds None \<and> ds \<noteq> [] \<and>
      packed SVS segment ds \<longrightarrow>
       (\<exists>segment2 new.
          TemplatedColumnDataCopy SVS OP meta_data source_data source offset count_p segment =
            Some (None, segment2)
        \<and> path segment2 (vector_data_index meta_data) (ds @ new) None
        \<and> packed SVS segment2 (ds @ new)
        \<and> ReadVectorInternal_loop segment2 (vector_data_index meta_data) [] =
            Some (Inr (chain_rows segment2 (ds @ new)))
        \<and> map fst (chain_rows segment2 (ds @ new)) =
            map fst (chain_rows segment ds) @
            map (\<lambda>i. RowIsValid (validity source_data) (sel source_data (offset + i)))
              [0..<count_p]))"
proof (intro conjI impI)
  show "region_validity
     (ColumnDataCopyValidity SVS source_data target source_offset target_offset copy_count) k =
     ((if target_offset = 0 \<and> k < SVS then True else region_validity target k) \<and>
      \<not> (target_offset \<le> k \<and> k < target_offset + copy_count \<and>
         \<not> RowIsValid (validity source_data)
              (sel source_data (source_offset + (k - target_offset)))))"
    by (rule ColumnDataCopyValidity_bits)
next
  assume i: "i < length (vector_data segment)"
  from TemplatedColumnDataCopy_body_block [OF i, of SVS OP meta_data source_data source offset
      remaining]
  obtain current_index1 segment1 where
    r: "TemplatedColumnDataCopy_body SVS OP meta_data source_data source (Some i) offset
         remaining segment =
       Inr (current_index1,
            offset + min (idx_sub SVS (vcount (vector_data segment ! i))) remaining,
            remaining - min (idx_sub SVS (vcount (vector_data segment ! i))) remaining, segment1)"
    and i1: "i < length (vector_data segment1)"
    and b: "block (vector_data segment1 ! i) =
         block (vector_data (write_descriptor SVS OP meta_data source_data source offset
                  (min (idx_sub SVS (vcount (vector_data segment ! i))) remaining) i segment) ! i)"
    by blast
  have "region_validity (block (vector_data segment1 ! i)) k =
              ((if vcount (vector_data segment ! i) = 0 \<and> k < SVS then True
                else region_validity (block (vector_data segment ! i)) k) \<and>
               \<not> (vcount (vector_data segment ! i) \<le> k \<and>
                  k < vcount (vector_data segment ! i) +
                      min (idx_sub SVS (vcount (vector_data segment ! i))) remaining \<and>
                  \<not> RowIsValid (validity source_data)
                       (sel source_data (offset + (k - vcount (vector_data segment ! i))))))"
    using write_descriptor_validity [OF i, of SVS OP meta_data source_data source offset
        "min (idx_sub SVS (vcount (vector_data segment ! i))) remaining" k]
    unfolding b row_is_valid_def by simp
  with r i1 show "\<exists>current_index1 offset1 remaining1 segment1.
          TemplatedColumnDataCopy_body SVS OP meta_data source_data source (Some i) offset
            remaining segment = Inr (current_index1, offset1, remaining1, segment1)
          \<and> i < length (vector_data segment1)
          \<and> region_validity (block (vector_data segment1 ! i)) k =
              ((if vcount (vector_data segment ! i) = 0 \<and> k < SVS then True
                else region_validity (block (vector_data segment ! i)) k) \<and>
               \<not> (vcount (vector_data segment ! i) \<le> k \<and>
                  k < vcount (vector_data segment ! i) +
                      min (idx_sub SVS (vcount (vector_data segment ! i))) remaining \<and>
                  \<not> RowIsValid (validity source_data)
                       (sel source_data (offset + (k - vcount (vector_data segment ! i))))))"
    by blast
next
  assume a: "0 < SVS \<and> path segment (vector_data_index meta_data) ds None \<and> ds \<noteq> [] \<and>
      packed SVS segment ds"
  from TemplatedColumnDataCopy_chain [of SVS segment meta_data ds OP source_data source offset
      count_p] a
  obtain segment2 new rs where
    run: "TemplatedColumnDataCopy SVS OP meta_data source_data source offset count_p segment =
            Some (None, segment2)"
    and lrs: "length rs = count_p"
    and app: "chain_appended SVS OP meta_data source_data source offset
                (vector_data_index meta_data) ds segment segment2 new rs"
    by blast
  from app have p: "path segment2 (vector_data_index meta_data) (ds @ new) None"
    and k: "packed SVS segment2 (ds @ new)"
    and r: "chain_rows segment2 (ds @ new) = chain_rows segment ds @ rs"
    and c: "rows_copied OP meta_data source_data source offset (heap segment) (heap segment2) rs"
    unfolding chain_appended_def by blast+
  have v: "map fst rs =
      map (\<lambda>i. RowIsValid (validity source_data) (sel source_data (offset + i))) [0..<count_p]"
    using rows_copied_validity [OF c] lrs by (simp add: row_is_valid_def [abs_def])
  show "\<exists>segment2 new.
          TemplatedColumnDataCopy SVS OP meta_data source_data source offset count_p segment =
            Some (None, segment2)
        \<and> path segment2 (vector_data_index meta_data) (ds @ new) None
        \<and> packed SVS segment2 (ds @ new)
        \<and> ReadVectorInternal_loop segment2 (vector_data_index meta_data) [] =
            Some (Inr (chain_rows segment2 (ds @ new)))
        \<and> map fst (chain_rows segment2 (ds @ new)) =
            map fst (chain_rows segment ds) @
            map (\<lambda>i. RowIsValid (validity source_data) (sel source_data (offset + i)))
              [0..<count_p]"
    apply (rule exI [of _ segment2])
    apply (rule exI [of _ new])
    using run p k ReadVectorInternal_loop_path [OF p, of "[]"] r v by simp
qed

lemma int32_segment_chain:
  "0 < (4::nat) \<and> path int32_segment (vector_data_index int32_meta_data) [0] None \<and>
   [0::nat] \<noteq> [] \<and> packed 4 int32_segment [0] \<and> chain_rows int32_segment [0] = []"
  by (simp add: int32_segment_def int32_meta_data_def model_defs packed_def
      descriptor_initialised_def chain_rows_def descriptor_rows_def)

theorem validity_follows_the_source_witness:
  "\<exists>current_index1 offset1 remaining1 segment1 segment2 new.
      region_validity
        (ColumnDataCopyValidity 4 (unified int32_with_nulls) uninitialized_block 0 0 3) 1 = False
    \<and> TemplatedColumnDataCopy_body 4 StandardValueCopy int32_meta_data (unified int32_with_nulls)
        int32_with_nulls (Some 0) 0 6 int32_segment =
          Inr (current_index1, offset1, remaining1, segment1)
    \<and> region_validity (block (vector_data segment1 ! 0)) 1 = False
    \<and> TemplatedColumnDataCopy 4 StandardValueCopy int32_meta_data (unified int32_with_nulls)
        int32_with_nulls 0 6 int32_segment = Some (None, segment2)
    \<and> ReadVectorInternal_loop segment2 (Some 0) [] = Some (Inr (chain_rows segment2 ([0] @ new)))
    \<and> map fst (chain_rows segment2 ([0] @ new)) = [True, False, True, True, False, True]"
proof -
  have c0: "vcount (vector_data int32_segment ! 0) = 0"
    and l0: "0 < length (vector_data int32_segment)"
    by (simp_all add: int32_segment_def model_defs)
  have m: "map (\<lambda>i. RowIsValid (validity (unified int32_with_nulls))
                     (sel (unified int32_with_nulls) (0 + i))) [0..<6] =
           [True, False, True, True, False, True]"
    by (simp add: int32_with_nulls_def RowIsValid_def upt_rec)
  have v1: "\<not> RowIsValid (validity (unified int32_with_nulls))
              (sel (unified int32_with_nulls) 1)"
    by (simp add: int32_with_nulls_def RowIsValid_def)
  have idx: "vector_data_index int32_meta_data = Some 0" by (simp add: int32_meta_data_def)
  from validity_follows_the_source
         [of 4 "unified int32_with_nulls" uninitialized_block 0 0 3 1 0 int32_segment
            StandardValueCopy int32_meta_data int32_with_nulls 0 6 "[0]" 6]
       c0 l0 int32_segment_chain m v1 idx
  show ?thesis by (auto simp: idx_sub_def)
qed


section \<open>String preservation\<close>

text \<open>
  The value that a scan delivers for a stored row of a string column, read through the
  heap of the segment.
\<close>

definition stored_string :: "string list \<Rightarrow> bool \<times> data_value \<Rightarrow> Value" where
  "stored_string h r =
     (if \<not> fst r then NullValue
      else case snd r of
             string_value s \<Rightarrow> VarcharValue (GetString (heap_memory h) s)
           | _ \<Rightarrow> GarbageValue)"

text \<open>The pointers of the valid rows point into the heap.\<close>

definition pointer_in_heap :: "string list \<Rightarrow> bool \<times> data_value \<Rightarrow> bool" where
  "pointer_in_heap h r =
     (case r of
        (True, string_value (string_pointer n (heap_ptr i))) \<Rightarrow> i < length h
      | _ \<Rightarrow> True)"

definition strings_in_heap :: "string list \<Rightarrow> (bool \<times> data_value) list \<Rightarrow> bool" where
  "strings_in_heap h rs = list_all (pointer_in_heap h) rs"

lemma heap_memory_prefix:
  assumes "is_prefix h h1" and "i < length h"
  shows "heap_memory h1 (heap_ptr i) = heap_memory h (heap_ptr i)"
  using assms is_prefix_nth [OF assms] is_prefix_length [OF assms(1)]
  by (simp add: heap_memory_def)

lemma stored_string_prefix:
  assumes "is_prefix h h1" and "pointer_in_heap h r"
  shows "stored_string h1 r = stored_string h r \<and> pointer_in_heap h1 r"
proof (cases r)
  case (Pair valid v)
  show ?thesis
  proof (cases v)
    case (string_value s)
    show ?thesis
    proof (cases s)
      case (string_inlined x)
      then show ?thesis by (simp add: Pair string_value stored_string_def pointer_in_heap_def)
    next
      case (string_pointer n p)
      show ?thesis
      proof (cases p)
        case (external_ptr e)
        then show ?thesis
          by (simp add: Pair string_value string_pointer stored_string_def pointer_in_heap_def
              heap_memory_def)
      next
        case (heap_ptr i)
        show ?thesis
        proof (cases valid)
          case True
          with assms(2) have "i < length h"
            by (simp add: Pair string_value string_pointer heap_ptr pointer_in_heap_def)
          with heap_memory_prefix [OF assms(1) this] is_prefix_length [OF assms(1)] True
          show ?thesis
            by (simp add: Pair string_value string_pointer heap_ptr stored_string_def
                pointer_in_heap_def)
        next
          case False
          then show ?thesis
            by (simp add: Pair string_value string_pointer heap_ptr stored_string_def
                pointer_in_heap_def)
        qed
      qed
    qed
  qed (simp_all add: Pair stored_string_def pointer_in_heap_def)
qed

lemma strings_in_heap_prefix:
  assumes "is_prefix h h1" and "strings_in_heap h rs"
  shows "map (stored_string h1) rs = map (stored_string h) rs \<and> strings_in_heap h1 rs"
  using assms stored_string_prefix [OF assms(1)]
  by (simp add: strings_in_heap_def list_all_iff)

lemma AddBlob_GetString:
  "GetString (heap_memory (fst (AddBlob h mem s))) (snd (AddBlob h mem s)) = GetString mem s"
  by (cases s) (simp_all add: AddBlob_def heap_memory_def)

lemma string_row_copied:
  assumes c: "row_copied StringValueCopy meta_data mem h0 h1 input v"
  shows "stored_string h1 (True, v) =
           (case input of string_value s \<Rightarrow> VarcharValue (GetString mem s) | _ \<Rightarrow> GarbageValue)
       \<and> pointer_in_heap h1 (True, v)"
proof -
  from c obtain h where h0: "is_prefix h0 h"
    and h1: "is_prefix (fst (Operation StringValueCopy meta_data mem h input)) h1"
    and v: "v = snd (Operation StringValueCopy meta_data mem h input)"
    unfolding row_copied_def by blast
  show ?thesis
  proof (cases input)
    case (string_value s)
    show ?thesis
    proof (cases "IsInlined s")
      case True
      then obtain x where "s = string_inlined x" by (cases s) auto
      then show ?thesis
        using v by (simp add: string_value stored_string_def pointer_in_heap_def)
    next
      case False
      then have op: "Operation StringValueCopy meta_data mem h input =
          (h @ [GetString mem s], string_value (string_pointer (GetSize s) (heap_ptr (length h))))"
        by (simp add: string_value AddBlob_def)
      from h1 have p: "is_prefix (h @ [GetString mem s]) h1" unfolding op by simp
      from is_prefix_length [OF p] have l: "length h < length h1" by simp
      from is_prefix_nth [OF p, of "length h"] have n: "h1 ! length h = GetString mem s" by simp
      have v': "v = string_value (string_pointer (GetSize s) (heap_ptr (length h)))"
        using v unfolding op by simp
      have "take (GetSize s) (GetString mem s) = GetString mem s"
        using False by (cases s) simp_all
      then show ?thesis
        using l n
        by (simp add: v' string_value stored_string_def pointer_in_heap_def heap_memory_def)
    qed
  qed (use v in \<open>simp_all add: stored_string_def pointer_in_heap_def\<close>)
qed

lemma GetValue_varchar:
  assumes "GetType source = LogicalPlain VARCHAR"
  shows "GetValue source index =
     (if \<not> RowIsValid (validity (unified source)) (sel (unified source) index) then NullValue
      else case data (unified source) (sel (unified source) index) of
             string_value s \<Rightarrow> VarcharValue (GetString (string_memory source) s)
           | _ \<Rightarrow> GarbageValue)"
  using assms by (cases source) (auto simp: Let_def split: data_value.splits)

lemma string_rows_copied:
  assumes c: "rows_copied StringValueCopy meta_data (unified source) source offset h0 h1 rs"
    and t: "GetType source = LogicalPlain VARCHAR"
  shows "map (stored_string h1) rs = map (\<lambda>k. GetValue source (offset + k)) [0..<length rs]
       \<and> strings_in_heap h1 rs"
proof -
  have row: "stored_string h1 (rs ! k) = GetValue source (offset + k)
             \<and> pointer_in_heap h1 (rs ! k)" if k: "k < length rs" for k
  proof (cases "row_is_valid (unified source) offset k")
    case True
    with c k have f: "fst (rs ! k)"
      and r: "row_copied StringValueCopy meta_data (string_memory source) h0 h1
                (data (unified source) (sel (unified source) (offset + k))) (snd (rs ! k))"
      by (simp_all add: rows_copied_def)
    from f have e: "rs ! k = (True, snd (rs ! k))" by (cases "rs ! k") simp
    from string_row_copied [OF r] True show ?thesis
      by (subst (1 2) e) (simp add: GetValue_varchar [OF t] row_is_valid_def)
  next
    case False
    with c k have f: "\<not> fst (rs ! k)" by (simp add: rows_copied_def)
    then have e: "rs ! k = (False, snd (rs ! k))" by (cases "rs ! k") simp
    from False show ?thesis
      by (subst (1 2) e)
         (simp add: GetValue_varchar [OF t] row_is_valid_def stored_string_def
            pointer_in_heap_def)
  qed
  have "map (stored_string h1) rs = map (\<lambda>k. GetValue source (offset + k)) [0..<length rs]"
    by (rule nth_equalityI) (simp_all add: row)
  moreover have "strings_in_heap h1 rs"
    unfolding strings_in_heap_def list_all_length using row by blast
  ultimately show ?thesis by blast
qed

lemma GetValue_FlatVector_varchar:
  "map (GetValue (FlatVector (LogicalPlain VARCHAR) rs (heap_memory h) 0 [])) [0..<length rs] =
   map (stored_string h) rs"
  by (rule nth_equalityI)
     (simp_all add: FlatVector_def stored_string_def RowIsValid_def Let_def)

lemma ReadVector_varchar:
  assumes "path segment p ds None"
  shows "ReadVector segment (LogicalPlain VARCHAR) p =
     Some (Inr (FlatVector (LogicalPlain VARCHAR) (chain_rows segment ds)
                  (heap_memory (heap segment)) 0 [],
                length (chain_rows segment ds)))"
  using ReadVectorInternal_loop_path [OF assms, of "[]"] by simp


lemma chain_appended_rows:
  assumes "chain_appended SVS OP meta_data source_data source offset p ds segment segment1 new rs"
  shows "path segment1 p (ds @ new) None"
    and "packed SVS segment1 (ds @ new)"
    and "chain_rows segment1 (ds @ new) = chain_rows segment ds @ rs"
    and "rows_copied OP meta_data source_data source offset (heap segment) (heap segment1) rs"
  using assms unfolding chain_appended_def by blast+

definition varchar_segment :: ColumnDataCollectionSegment where
  "varchar_segment =
     AllocateNewChunk
       \<lparr>segment_allocator = Some (ColumnDataAllocator_of_Allocator 0),
        segment_types = [LogicalPlain VARCHAR], segment_count = 0, chunk_data = [],
        vector_data = [], child_indices = [], heap = []\<rparr>"

definition varchar_vector :: Vector where
  "varchar_vector =
     Vector (LogicalPlain VARCHAR)
       \<lparr>sel = (\<lambda>i. i), validity = Some (\<lambda>i. i \<noteq> 2),
        data = (\<lambda>i. if i = 0 then string_value (string_inlined ''ab'')
                    else string_value (string_pointer 13 (external_ptr 7)))\<rparr>
       (\<lambda>p. if p = external_ptr 7 then ''a long string'' else []) 0 []"

text \<open>
  C9: the string copy stores an inlined string by value and otherwise the \<open>string_t\<close>
  that \<open>AddBlob\<close> returns, which reads through the heap as the bytes of the input.
  Therefore the copy of a string column into a packed chain whose stored pointers point
  into the heap returns normally, and the vector read from the chain afterwards holds the
  values that were readable before, followed by the values of the copied source rows,
  whether inlined or not; the stored pointers still point into the heap.
\<close>

theorem strings_are_preserved:
  "(Operation StringValueCopy meta_data mem heap_p (string_value s) =
      (if IsInlined s then (heap_p, string_value s)
       else (fst (AddBlob heap_p mem s), string_value (snd (AddBlob heap_p mem s))))
    \<and> GetString (heap_memory (fst (AddBlob heap_p mem s))) (snd (AddBlob heap_p mem s)) =
        GetString mem s)
   \<and> (0 < SVS \<and> GetType source = LogicalPlain VARCHAR \<and> path segment index ds None \<and>
      ds \<noteq> [] \<and> packed SVS segment ds \<and>
      strings_in_heap (heap segment) (chain_rows segment ds) \<longrightarrow>
       (\<exists>segment1 new out0 out.
          call_copy_function SVS (ColumnDataCopyFunction (ColumnDataCopy T_string_t) []) index
            (ToUnifiedFormat source count_p) source offset count_p segment =
            Some (None, segment1)
        \<and> ReadVector segment (LogicalPlain VARCHAR) index =
            Some (Inr (out0, length (chain_rows segment ds)))
        \<and> ReadVector segment1 (LogicalPlain VARCHAR) index =
            Some (Inr (out, length (chain_rows segment ds) + count_p))
        \<and> map (GetValue out) [0..<length (chain_rows segment ds) + count_p] =
            map (GetValue out0) [0..<length (chain_rows segment ds)] @
            map (\<lambda>k. GetValue source (offset + k)) [0..<count_p]
        \<and> path segment1 index (ds @ new) None \<and> packed SVS segment1 (ds @ new)
        \<and> strings_in_heap (heap segment1) (chain_rows segment1 (ds @ new))))"
proof (intro conjI impI)
  show "Operation StringValueCopy meta_data mem heap_p (string_value s) =
      (if IsInlined s then (heap_p, string_value s)
       else (fst (AddBlob heap_p mem s), string_value (snd (AddBlob heap_p mem s))))"
    by (simp add: Let_def split: prod.splits)
  show "GetString (heap_memory (fst (AddBlob heap_p mem s))) (snd (AddBlob heap_p mem s)) =
        GetString mem s"
    by (rule AddBlob_GetString)
next
  assume a: "0 < SVS \<and> GetType source = LogicalPlain VARCHAR \<and> path segment index ds None \<and>
      ds \<noteq> [] \<and> packed SVS segment ds \<and>
      strings_in_heap (heap segment) (chain_rows segment ds)"
  let ?f = "ColumnDataCopy T_string_t"
  let ?meta = "meta_data_of ?f [] index"
  let ?sd = "ToUnifiedFormat source count_p"
  from a have svs: "0 < SVS" and t: "GetType source = LogicalPlain VARCHAR"
    and pth: "path segment (vector_data_index ?meta) ds None" and ne: "ds \<noteq> []"
    and pk: "packed SVS segment ds"
    and sh: "strings_in_heap (heap segment) (chain_rows segment ds)"
    by simp_all
  from TemplatedColumnDataCopy_chain [OF svs pth ne pk, of StringValueCopy ?sd source offset
      count_p]
  obtain segment1 new rs where
    run: "TemplatedColumnDataCopy SVS StringValueCopy ?meta ?sd source offset count_p segment =
            Some (None, segment1)"
    and lrs: "length rs = count_p"
    and app: "chain_appended SVS StringValueCopy ?meta ?sd source offset
                (vector_data_index ?meta) ds segment segment1 new rs"
    by blast
  note rows = chain_appended_rows [OF app]
  have p1: "path segment1 index (ds @ new) None"
    and k1: "packed SVS segment1 (ds @ new)"
    and r1: "chain_rows segment1 (ds @ new) = chain_rows segment ds @ rs"
    and c1: "rows_copied StringValueCopy ?meta (unified source) source offset (heap segment)
               (heap segment1) rs"
    using rows by (simp_all add: ToUnifiedFormat_def)
  from c1 have grow: "is_prefix (heap segment) (heap segment1)" by (simp add: rows_copied_def)
  note old = strings_in_heap_prefix [OF grow sh]
  note new = string_rows_copied [OF c1 t]
  let ?before = "FlatVector (LogicalPlain VARCHAR) (chain_rows segment ds)
                 (heap_memory (heap segment)) 0 []"
  let ?after = "FlatVector (LogicalPlain VARCHAR) (chain_rows segment1 (ds @ new))
                (heap_memory (heap segment1)) 0 []"
  have call: "call_copy_function SVS (ColumnDataCopyFunction ?f []) index ?sd source offset
      count_p segment = Some (None, segment1)"
    using run by (simp add: call_copy_function_scalar operation_of_def)
  have read0: "ReadVector segment (LogicalPlain VARCHAR) index =
      Some (Inr (?before, length (chain_rows segment ds)))"
    using ReadVector_varchar [of segment index ds] pth by simp
  have read1: "ReadVector segment1 (LogicalPlain VARCHAR) index =
      Some (Inr (?after, length (chain_rows segment ds) + count_p))"
    using ReadVector_varchar [OF p1] lrs by (simp add: r1 del: chain_rows_append)
  have vals: "map (GetValue ?after) [0..<length (chain_rows segment ds) + count_p] =
      map (GetValue ?before) [0..<length (chain_rows segment ds)] @
      map (\<lambda>k. GetValue source (offset + k)) [0..<count_p]"
    using GetValue_FlatVector_varchar [of "chain_rows segment1 (ds @ new)" "heap segment1"]
      GetValue_FlatVector_varchar [of "chain_rows segment ds" "heap segment"] old new lrs
    by (simp add: r1 del: chain_rows_append)
  have heap1: "strings_in_heap (heap segment1) (chain_rows segment1 (ds @ new))"
    using old new by (simp add: r1 strings_in_heap_def del: chain_rows_append)
  show "\<exists>segment1 new out0 out.
          call_copy_function SVS (ColumnDataCopyFunction (ColumnDataCopy T_string_t) []) index
            (ToUnifiedFormat source count_p) source offset count_p segment =
            Some (None, segment1)
        \<and> ReadVector segment (LogicalPlain VARCHAR) index =
            Some (Inr (out0, length (chain_rows segment ds)))
        \<and> ReadVector segment1 (LogicalPlain VARCHAR) index =
            Some (Inr (out, length (chain_rows segment ds) + count_p))
        \<and> map (GetValue out) [0..<length (chain_rows segment ds) + count_p] =
            map (GetValue out0) [0..<length (chain_rows segment ds)] @
            map (\<lambda>k. GetValue source (offset + k)) [0..<count_p]
        \<and> path segment1 index (ds @ new) None \<and> packed SVS segment1 (ds @ new)
        \<and> strings_in_heap (heap segment1) (chain_rows segment1 (ds @ new))"
    using call read0 read1 vals p1 k1 heap1 by blast
qed

lemma varchar_segment_chain:
  "0 < (2::nat) \<and> GetType varchar_vector = LogicalPlain VARCHAR \<and>
   path varchar_segment (Some 0) [0] None \<and> [0::nat] \<noteq> [] \<and> packed 2 varchar_segment [0] \<and>
   strings_in_heap (heap varchar_segment) (chain_rows varchar_segment [0]) \<and>
   chain_rows varchar_segment [0] = []"
  by (simp add: varchar_segment_def varchar_vector_def model_defs packed_def
      descriptor_initialised_def chain_rows_def descriptor_rows_def strings_in_heap_def)

theorem strings_are_preserved_witness:
  "\<exists>segment1 out.
      Operation StringValueCopy int32_meta_data (string_memory varchar_vector) []
        (string_value (string_pointer 13 (external_ptr 7))) =
        ([''a long string''], string_value (string_pointer 13 (heap_ptr 0)))
    \<and> call_copy_function 2 (ColumnDataCopyFunction (ColumnDataCopy T_string_t) []) (Some 0)
        (ToUnifiedFormat varchar_vector 3) varchar_vector 0 3 varchar_segment =
        Some (None, segment1)
    \<and> ReadVector segment1 (LogicalPlain VARCHAR) (Some 0) = Some (Inr (out, 3))
    \<and> map (GetValue out) [0..<3] =
        [VarcharValue ''ab'', VarcharValue ''a long string'', NullValue]"
proof -
  have v: "map (\<lambda>k. GetValue varchar_vector (0 + k)) [0..<3] =
      [VarcharValue ''ab'', VarcharValue ''a long string'', NullValue]"
    by (simp add: varchar_vector_def RowIsValid_def upt_rec)
  have b: "AddBlob [] (string_memory varchar_vector) (string_pointer 13 (external_ptr 7)) =
      ([''a long string''], string_pointer 13 (heap_ptr 0))"
    by (simp add: AddBlob_def varchar_vector_def)
  from strings_are_preserved
         [of int32_meta_data "string_memory varchar_vector" "[]"
            "string_pointer 13 (external_ptr 7)" 2 varchar_vector varchar_segment "Some 0"
            "[0]" 3 0]
       varchar_segment_chain v b
  show ?thesis by auto
qed


section \<open>Copy functions on descriptor trees\<close>

text \<open>
  The descriptors of a column form a tree: the chain of the column itself and, for a list
  or a struct, the trees of its children, found through the child index of the head of
  the chain. \<open>wf_tree\<close> says that a tree describes the descriptors of a column with a given
  copy function in a segment; \<open>source_ok\<close> says that an input vector has the children its
  copy function reads.
\<close>

datatype vtree = VTree (chain_of: "nat list") (kids_of: "vtree list")

fun root_of :: "vtree \<Rightarrow> nat" where
  "root_of (VTree ds ks) = hd ds"


fun wf_tree :: "idx_t \<Rightarrow> ColumnDataCollectionSegment \<Rightarrow> ColumnDataCopyFunction \<Rightarrow> vtree \<Rightarrow> bool"
  where
  "wf_tree SVS segment f (VTree ds ks) =
     (ds \<noteq> [] \<and> path segment (Some (hd ds)) ds None \<and> packed SVS segment ds \<and>
      (case operation_of (function_ptr f) of
         StandardValueCopy \<Rightarrow> ks = []
       | StringValueCopy \<Rightarrow> ks = []
       | ListValueCopy \<Rightarrow>
           (case child_index (vector_data segment ! hd ds) of
              None \<Rightarrow> False
            | Some ci \<Rightarrow>
                ci < length (child_indices segment) \<and>
                map (\<lambda>k. Some (root_of k)) ks = [child_indices segment ! ci] \<and>
                list_all2 (wf_tree SVS segment) (take 1 (child_functions f)) ks)
       | StructValueCopy \<Rightarrow>
           (case child_index (vector_data segment ! hd ds) of
              None \<Rightarrow> False
            | Some base \<Rightarrow>
                base + length ks \<le> length (child_indices segment) \<and>
                map (\<lambda>k. Some (root_of k)) ks =
                  take (length ks) (drop base (child_indices segment)) \<and>
                list_all2 (wf_tree SVS segment) (child_functions f) ks)))"


declare wf_tree.simps [simp del]



lemma wf_tree_scalar:
  assumes "operation_of fp = StandardValueCopy \<or> operation_of fp = StringValueCopy"
  shows "wf_tree SVS segment (ColumnDataCopyFunction fp fs) (VTree ds ks) =
     (ds \<noteq> [] \<and> path segment (Some (hd ds)) ds None \<and> packed SVS segment ds \<and> ks = [])"
  using assms by (auto simp: wf_tree.simps)

lemma wf_tree_list:
  "wf_tree SVS segment (ColumnDataCopyFunction list_fp fs) (VTree ds ks) =
     (ds \<noteq> [] \<and> path segment (Some (hd ds)) ds None \<and> packed SVS segment ds \<and>
      (\<exists>ci cf rest kid.
         child_index (vector_data segment ! hd ds) = Some ci \<and>
         ci < length (child_indices segment) \<and>
         child_indices segment ! ci = Some (root_of kid) \<and>
         ks = [kid] \<and> fs = cf # rest \<and> wf_tree SVS segment cf kid))"
proof (cases fs)
  case Nil
  then show ?thesis
    unfolding wf_tree.simps [of SVS segment _ ds ks]
    by (auto simp: operation_of_def split: option.splits)
next
  case (Cons cf rest)
  show ?thesis
  proof (cases ks)
    case Nil
    then show ?thesis
      unfolding wf_tree.simps [of SVS segment _ ds ks]
      by (auto simp: operation_of_def split: option.splits)
  next
    case c: (Cons kid ks1)
    show ?thesis
      unfolding Cons c wf_tree.simps [of SVS segment _ ds "kid # ks1"]
      by (auto simp: operation_of_def split: option.splits)
  qed
qed

lemma wf_tree_struct:
  "wf_tree SVS segment (ColumnDataCopyFunction ColumnDataCopyStruct fs) (VTree ds ks) =
     (ds \<noteq> [] \<and> path segment (Some (hd ds)) ds None \<and> packed SVS segment ds \<and>
      (\<exists>base.
         child_index (vector_data segment ! hd ds) = Some base \<and>
         base + length ks \<le> length (child_indices segment) \<and>
         (\<forall>k < length ks. child_indices segment ! (base + k) = Some (root_of (ks ! k))) \<and>
         list_all2 (wf_tree SVS segment) fs ks))"
proof -
  have k: "(map (\<lambda>k. Some (root_of k)) ks = take (length ks) (drop base (child_indices segment)))
         = (\<forall>k < length ks. child_indices segment ! (base + k) = Some (root_of (ks ! k)))"
    if "base + length ks \<le> length (child_indices segment)" for base
    using that by (auto simp: list_eq_iff_nth_eq)
  show ?thesis
    unfolding wf_tree.simps [of SVS segment _ ds ks]
    using k by (auto simp: operation_of_def split: option.splits)
qed

lemma wf_tree_cases [case_names scalar list struct]:
  obtains (scalar) fp fs where "f = ColumnDataCopyFunction fp fs"
      "operation_of fp = StandardValueCopy \<or> operation_of fp = StringValueCopy"
    | (list) fs where "f = ColumnDataCopyFunction list_fp fs"
    | (struct) fs where "f = ColumnDataCopyFunction ColumnDataCopyStruct fs"
proof (cases f)
  case (ColumnDataCopyFunction fp fs)
  then show ?thesis
    using that by (cases fp rule: operation_of_cases) auto
qed

text \<open>What a copy leaves alone: everything but the descriptors in \<open>F\<close>.\<close>

definition frame ::
  "ColumnDataCollectionSegment \<Rightarrow> ColumnDataCollectionSegment \<Rightarrow> nat set \<Rightarrow> bool" where
  "frame segment segment1 F =
     (length (vector_data segment) \<le> length (vector_data segment1)
      \<and> (\<forall>j < length (vector_data segment). j \<notin> F \<longrightarrow>
            vector_data segment1 ! j = vector_data segment ! j)
      \<and> child_indices segment1 = child_indices segment
      \<and> same_chunks segment segment1
      \<and> is_prefix (heap segment) (heap segment1))"


lemma frame_refl [simp]: "frame segment segment F"
  by (simp add: frame_def)








lemma wf_tree_kids:
  assumes "wf_tree SVS segment f (VTree ds ks)" and "k \<in> set ks"
  shows "\<exists>g. wf_tree SVS segment g k"
proof (cases f rule: wf_tree_cases)
  case (scalar fp fs)
  with assms show ?thesis by (simp add: wf_tree_scalar)
next
  case (list fs)
  with assms show ?thesis by (auto simp: wf_tree_list)
next
  case (struct fs)
  with assms show ?thesis
    by (auto simp: wf_tree_struct list_all2_conv_all_nth in_set_conv_nth)
qed
















section \<open>List entries\<close>















end
